theory Spec2Isabelle
  imports Main "HOL-Library.Sublist" "HOL-Library.Multiset"
begin

section \<open>The card dealer web service (Chapter 12, recipes 2 and 3)\<close>

text \<open>
  The two Flask applications \<^verbatim>\<open>ch12_r02.py\<close> and \<^verbatim>\<open>ch12_r03.py\<close> deal hands of cards
  from one module-global deck. The model covers GET requests: a request is its path, its
  \<^verbatim>\<open>Accept\<close> header (if any) and its query arguments in the order of the query string;
  a view function takes the process state and returns its outcome with the new state.
\<close>

subsection \<open>Cards and the deck\<close>

datatype suit = Spade | Heart | Diamond | Club

record card =
  rank :: int
  suit :: suit

definition SUITS :: "suit list" where
  "SUITS = [Spade, Heart, Diamond, Club]"

text \<open>The full set of cards: one card for each of the ranks 1 to 13 and each of the suits.\<close>

definition all_cards :: "card list" where
  "all_cards = concat (map (\<lambda>r. map (\<lambda>s. \<lparr>rank = r, suit = s\<rparr>) SUITS) [1..13])"

text \<open>
  Modelled from the spec: the class \<^verbatim>\<open>Deck\<close> of \<^verbatim>\<open>Chapter_12.ch12_r01\<close>, which both
  applications import and which is not among the sources. The spec describes the deck as
  an ordered sequence of cards that changes only by removal from the front.
\<close>

record deck =
  remaining :: "card list"

datatype error = Abort nat | DeckExhausted

definition BAD_REQUEST :: nat where
  "BAD_REQUEST = 400"

definition NOT_FOUND :: nat where
  "NOT_FOUND = 404"

definition abort :: "nat \<Rightarrow> error + 'a" where
  "abort status = Inl (Abort status)"

text \<open>
  Modelled from the spec: the method \<^verbatim>\<open>Deck.deal\<close> of \<^verbatim>\<open>Chapter_12.ch12_r01\<close>. It
  removes and returns the first \<open>n\<close> cards of the remaining sequence, and fails with
  \<open>DeckExhausted\<close> when \<open>n\<close> exceeds the remaining count.
\<close>

definition Deck_deal :: "nat \<Rightarrow> deck \<Rightarrow> error + (card list \<times> deck)" where
  "Deck_deal n d =
     (if length (remaining d) < n then Inl DeckExhausted
      else Inr (take n (remaining d), d\<lparr>remaining := drop n (remaining d)\<rparr>))"

text \<open>
  Modelled from the spec: the method \<^verbatim>\<open>Card.to_json\<close> of \<^verbatim>\<open>Chapter_12.ch12_r01\<close>; the
  wire form of a card carries the fixed tag \<^verbatim>\<open>Card\<close>, the rank and the suit.
\<close>

record card_json =
  j_class :: string
  j_rank :: int
  j_suit :: suit

definition to_json :: "card \<Rightarrow> card_json" where
  "to_json c = \<lparr>j_class = ''Card'', j_rank = rank c, j_suit = suit c\<rparr>"

subsection \<open>The random module and the process environment\<close>

text \<open>
  Python's \<^verbatim>\<open>random\<close> module is a parameter of the model: \<open>seed_str\<close> is the generator
  state that \<^verbatim>\<open>random.seed(s)\<close> sets for a string \<open>s\<close>, and \<open>shuffle\<close> is
  \<^verbatim>\<open>random.shuffle\<close>, which reorders a list and advances the generator. What one
  process run gets from outside is the environment \<^verbatim>\<open>os.environ\<close> and the generator state
  \<open>urandom\<close> that \<^verbatim>\<open>random.seed(None)\<close> takes from the operating system's entropy.
\<close>

record 'g random_module =
  seed_str :: "string \<Rightarrow> 'g"
  shuffle :: "'g \<Rightarrow> card list \<Rightarrow> card list \<times> 'g"

record 'g platform =
  environ :: "string \<Rightarrow> string option"
  urandom :: 'g

definition random_seed :: "'g random_module \<Rightarrow> 'g platform \<Rightarrow> string option \<Rightarrow> 'g" where
  "random_seed R P a = (case a of None \<Rightarrow> urandom P | Some s \<Rightarrow> seed_str R s)"

text \<open>
  Modelled from the spec: the constructor \<^verbatim>\<open>Deck()\<close> of \<^verbatim>\<open>Chapter_12.ch12_r01\<close>, which
  orders the full set of cards by the permutation that the generator state determines.
\<close>

definition Deck :: "'g random_module \<Rightarrow> 'g \<Rightarrow> deck \<times> 'g" where
  "Deck R g = (case shuffle R g all_cards of (cs, g') \<Rightarrow> (\<lparr>remaining = cs\<rparr>, g'))"

text \<open>
  The module globals: \<^verbatim>\<open>deck\<close> and the state of the \<^verbatim>\<open>random\<close> module.
  \<^verbatim>\<open>get_deck\<close> has the same text in both recipes.
\<close>

record 'g app_state =
  deck :: "deck option"
  rng :: 'g

definition get_deck ::
  "'g random_module \<Rightarrow> 'g platform \<Rightarrow> 'g app_state \<Rightarrow> deck \<times> 'g app_state" where
  "get_deck R P st =
     (case deck st of
        None \<Rightarrow>
          (case Deck R (random_seed R P (environ P ''DEAL_APP_SEED'')) of
             (d, g') \<Rightarrow> (d, st\<lparr>deck := Some d, rng := g'\<rparr>))
      | Some d \<Rightarrow> (d, st))"

subsection \<open>Requests\<close>

record request =
  path :: string
  accept :: "string option"
  args :: "(string \<times> string) list"

text \<open>
  \<^verbatim>\<open>request.args\<close> is a multi-dict: \<^verbatim>\<open>get\<close> returns the first value stored under a key
  (or the default), \<^verbatim>\<open>getlist\<close> returns all of them in order.
\<close>

definition args_get :: "(string \<times> string) list \<Rightarrow> string \<Rightarrow> string option" where
  "args_get a k = map_of a k"

definition args_getlist :: "(string \<times> string) list \<Rightarrow> string \<Rightarrow> string list" where
  "args_getlist a k = map snd (filter (\<lambda>kv. fst kv = k) a)"

text \<open>The test \<^verbatim>\<open>sub in s\<close> on strings.\<close>

fun str_in :: "string \<Rightarrow> string \<Rightarrow> bool" where
  "str_in sub [] = (sub = [])"
| "str_in sub (c # cs) = (prefix sub (c # cs) \<or> str_in sub cs)"

subsection \<open>Responses\<close>

record hand_json =
  hand :: nat
  cards :: "card_json list"

text \<open>
  The bodies of the successful responses: the JSON array of cards of \<^verbatim>\<open>/dealer/hand\<close>,
  the JSON array of numbered hands of \<^verbatim>\<open>/dealer/hands\<close>, and the two renderings of the
  static OpenAPI document.
\<close>

datatype response =
    Cards_body "card_json list"
  | Hands_body "hand_json list"
  | Openapi_yaml
  | Openapi_json

type_synonym 'g outcome = "(error + response) \<times> 'g app_state"

subsection \<open>The content negotiation gate\<close>

text \<open>
  \<^verbatim>\<open>check_json\<close> returns \<^verbatim>\<open>None\<close> to let the request through, or aborts. The one of
  recipe 3 lets the two OpenAPI paths through first; the one of recipe 2 does not have
  that case.
\<close>

definition check_json :: "request \<Rightarrow> error + response option" where
  "check_json req =
     (if path req \<in> set [''/dealer/openapi.yaml'', ''/dealer/openapi.json''] then Inr None
      else if str_in ''json'' (case accept req of None \<Rightarrow> ''*/*'' | Some v \<Rightarrow> v) then Inr None
      else if ''json'' = (case args_get (args req) ''$format'' of None \<Rightarrow> ''html'' | Some v \<Rightarrow> v)
        then Inr None
      else abort BAD_REQUEST)"

definition r02_check_json :: "request \<Rightarrow> error + response option" where
  "r02_check_json req =
     (if str_in ''json'' (case accept req of None \<Rightarrow> ''*/*'' | Some v \<Rightarrow> v) then Inr None
      else if ''json'' = (case args_get (args req) ''$format'' of None \<Rightarrow> ''html'' | Some v \<Rightarrow> v)
        then Inr None
      else abort BAD_REQUEST)"

subsection \<open>Parsing an integer\<close>

text \<open>
  \<^verbatim>\<open>int(s)\<close> on a string, in base 10: white space around the number is skipped, one sign
  is allowed, and single underscores may separate digits. \<open>None\<close> stands for
  \<^verbatim>\<open>ValueError\<close>. Strings are byte strings here, so the model reads ASCII digits and
  ASCII white space only; the interpreter's limit on the number of digits of a literal is
  left out. The properties below do not depend on which strings parse, except where a
  concrete argument such as \<^verbatim>\<open>52\<close> is evaluated.
\<close>

definition is_space :: "char \<Rightarrow> bool" where
  "is_space c = (c \<in> set [CHR 0x09, CHR 0x0A, CHR 0x0B, CHR 0x0C, CHR 0x0D, CHR 0x20])"

definition digit_of :: "char \<Rightarrow> int option" where
  "digit_of c = map_of (zip ''0123456789'' [0, 1, 2, 3, 4, 5, 6, 7, 8, 9]) c"

fun digits_val :: "int \<Rightarrow> string \<Rightarrow> int option" where
  "digits_val acc [] = Some acc"
| "digits_val acc [c] =
     (case digit_of c of None \<Rightarrow> None | Some v \<Rightarrow> Some (acc * 10 + v))"
| "digits_val acc (c # d # ds) =
     (case digit_of c of
        Some v \<Rightarrow> digits_val (acc * 10 + v) (d # ds)
      | None \<Rightarrow>
          (if c = CHR ''_'' then
             (case digit_of d of None \<Rightarrow> None | Some w \<Rightarrow> digits_val (acc * 10 + w) ds)
           else None))"

definition strip :: "string \<Rightarrow> string" where
  "strip s = rev (dropWhile is_space (rev (dropWhile is_space s)))"

definition unsigned_int :: "string \<Rightarrow> int option" where
  "unsigned_int s =
     (case s of
        [] \<Rightarrow> None
      | c # cs \<Rightarrow> (case digit_of c of None \<Rightarrow> None | Some v \<Rightarrow> digits_val v cs))"

definition py_int :: "string \<Rightarrow> int option" where
  "py_int s =
     (case strip s of
        [] \<Rightarrow> None
      | c # cs \<Rightarrow>
          (if c = CHR ''+'' then unsigned_int cs
           else if c = CHR ''-'' then map_option uminus (unsigned_int cs)
           else unsigned_int (c # cs)))"

text \<open>
  \<^verbatim>\<open>getlist(key, type=f)\<close> converts every value stored under the key with \<open>f\<close> and
  leaves out the values on which \<open>f\<close> raises \<^verbatim>\<open>ValueError\<close>.
\<close>

definition args_getlist_type ::
  "(string \<times> string) list \<Rightarrow> string \<Rightarrow> (string \<Rightarrow> 'a option) \<Rightarrow> 'a list" where
  "args_getlist_type a k f = List.map_filter f (args_getlist a k)"

subsection \<open>The view functions\<close>

definition swagger2 :: "error + response" where
  "swagger2 = Inr Openapi_yaml"

definition swagger3 :: "error + response" where
  "swagger3 = Inr Openapi_json"

text \<open>
  \<^verbatim>\<open>deal\<close>, the view of \<^verbatim>\<open>/dealer/hand\<close>, has the same text in both recipes. Every
  exception of its \<^verbatim>\<open>try\<close> block becomes \<^verbatim>\<open>abort(400)\<close>; an exception of
  \<^verbatim>\<open>deck.deal\<close> is not caught.
\<close>

definition hand_size_of :: "request \<Rightarrow> int option" where
  "hand_size_of req =
     (case args_get (args req) ''cards'' of None \<Rightarrow> Some 5 | Some v \<Rightarrow> py_int v)"

definition deal :: "'g random_module \<Rightarrow> 'g platform \<Rightarrow> request \<Rightarrow> 'g app_state \<Rightarrow> 'g outcome" where
  "deal R P req st =
     (case hand_size_of req of
        None \<Rightarrow> (abort BAD_REQUEST, st)
      | Some hand_size \<Rightarrow>
          (if \<not> (1 \<le> hand_size \<and> hand_size < 53) then (abort BAD_REQUEST, st)
           else
             (case get_deck R P st of
                (d, st1) \<Rightarrow>
                  (case Deck_deal (nat hand_size) d of
                     Inl e \<Rightarrow> (Inl e, st1)
                   | Inr (cs, d') \<Rightarrow>
                       (Inr (Cards_body (map to_json cs)), st1\<lparr>deck := Some d'\<rparr>)))))"

text \<open>
  The list comprehension of \<^verbatim>\<open>multi_hand\<close>: one \<^verbatim>\<open>deck.deal\<close> for each size, in
  order, on the same deck object. When a call raises, the earlier calls have already
  taken their cards.
\<close>

fun deal_each :: "int list \<Rightarrow> deck \<Rightarrow> (error + card list list) \<times> deck" where
  "deal_each [] d = (Inr [], d)"
| "deal_each (hand_size # hand_sizes) d =
     (case Deck_deal (nat hand_size) d of
        Inl e \<Rightarrow> (Inl e, d)
      | Inr (h, d') \<Rightarrow>
          (case deal_each hand_sizes d' of
             (Inl e, d'') \<Rightarrow> (Inl e, d'')
           | (Inr hs, d'') \<Rightarrow> (Inr (h # hs), d'')))"

definition hand_sizes_of :: "request \<Rightarrow> int list" where
  "hand_sizes_of req =
     (let hand_sizes = args_getlist_type (args req) ''cards'' py_int
      in if length hand_sizes = 0 then [13, 13, 13, 13] else hand_sizes)"

definition multi_hand ::
  "'g random_module \<Rightarrow> 'g platform \<Rightarrow> request \<Rightarrow> 'g app_state \<Rightarrow> 'g outcome" where
  "multi_hand R P req st =
     (let hand_sizes = hand_sizes_of req
      in if \<not> list_all (\<lambda>hand_size. 1 \<le> hand_size \<and> hand_size < 53) hand_sizes
           then (abort BAD_REQUEST, st)
         else if \<not> sum_list hand_sizes < 53 then (abort BAD_REQUEST, st)
         else
           (case get_deck R P st of
              (d, st1) \<Rightarrow>
                (case deal_each hand_sizes d of
                   (Inl e, d') \<Rightarrow> (Inl e, st1\<lparr>deck := Some d'\<rparr>)
                 | (Inr hands, d') \<Rightarrow>
                     (Inr (Hands_body
                        (map (\<lambda>(i, h). \<lparr>hand = i, cards = map to_json h\<rparr>)
                           (List.enumerate 0 hands))),
                      st1\<lparr>deck := Some d'\<rparr>))))"

subsection \<open>Dispatching a request\<close>

text \<open>
  Flask runs the \<^verbatim>\<open>before_request\<close> function first; the view of the matching route
  runs only when that function returned \<^verbatim>\<open>None\<close>. A path with no route is answered
  with 404.
\<close>

definition dispatch_request ::
  "'g random_module \<Rightarrow> 'g platform \<Rightarrow> request \<Rightarrow> 'g app_state \<Rightarrow> 'g outcome" where
  "dispatch_request R P req st =
     (if path req = ''/dealer/openapi.yaml'' then (swagger2, st)
      else if path req = ''/dealer/openapi.json'' then (swagger3, st)
      else if path req = ''/dealer/hand'' then deal R P req st
      else if path req = ''/dealer/hands'' then multi_hand R P req st
      else (abort NOT_FOUND, st))"

definition full_dispatch_request ::
  "'g random_module \<Rightarrow> 'g platform \<Rightarrow> request \<Rightarrow> 'g app_state \<Rightarrow> 'g outcome" where
  "full_dispatch_request R P req st =
     (case check_json req of
        Inl e \<Rightarrow> (Inl e, st)
      | Inr (Some rv) \<Rightarrow> (Inr rv, st)
      | Inr None \<Rightarrow> dispatch_request R P req st)"

text \<open>A process serves its requests one after the other (\<^verbatim>\<open>threaded=False\<close>).\<close>

fun serve ::
  "'g random_module \<Rightarrow> 'g platform \<Rightarrow> request list \<Rightarrow> 'g app_state
     \<Rightarrow> (error + response) list \<times> 'g app_state" where
  "serve R P [] st = ([], st)"
| "serve R P (req # reqs) st =
     (case full_dispatch_request R P req st of
        (r, st1) \<Rightarrow> (case serve R P reqs st1 of (rs, st2) \<Rightarrow> (r # rs, st2)))"

text \<open>A process starts with no deck; its generator state is whatever the import left.\<close>

definition initial_state :: "'g \<Rightarrow> 'g app_state" where
  "initial_state g0 = \<lparr>deck = None, rng = g0\<rparr>"

text \<open>
  The order of the deck that a process builds when it needs one, and a sample random
  module and platform on which the model can be evaluated: the generator state is a
  number, seeding takes the length of the seed, and shuffling rotates the list.
\<close>

definition fresh_order :: "'g random_module \<Rightarrow> 'g platform \<Rightarrow> card list" where
  "fresh_order R P = fst (shuffle R (random_seed R P (environ P ''DEAL_APP_SEED'')) all_cards)"

definition rot_random :: "nat random_module" where
  "rot_random = \<lparr>seed_str = length, shuffle = (\<lambda>g xs. (rotate g xs, Suc g))\<rparr>"

definition seeded_platform :: "string \<Rightarrow> nat \<Rightarrow> nat platform" where
  "seeded_platform s e = \<lparr>environ = [''DEAL_APP_SEED'' \<mapsto> s], urandom = e\<rparr>"

text \<open>
  The calls of \<^verbatim>\<open>deal\<close> that one deck object receives in its lifetime, with the hands
  of those that succeed; a call that fails leaves the deck as it is.
\<close>

fun deal_calls :: "nat list \<Rightarrow> deck \<Rightarrow> card list list \<times> deck" where
  "deal_calls [] d = ([], d)"
| "deal_calls (n # ns) d =
     (case Deck_deal n d of
        Inl e \<Rightarrow> deal_calls ns d
      | Inr (h, d') \<Rightarrow> (case deal_calls ns d' of (hs, d'') \<Rightarrow> (h # hs, d'')))"

text \<open>The two assertions of \<^verbatim>\<open>multi_hand\<close> on the list of hand sizes, taken together.\<close>

abbreviation sizes_ok :: "int list \<Rightarrow> bool" where
  "sizes_ok hand_sizes \<equiv>
     list_all (\<lambda>hand_size. 1 \<le> hand_size \<and> hand_size < 53) hand_sizes
     \<and> sum_list hand_sizes < 53"

text \<open>The deck of a state, if there is one, is what is left of a given order of cards.\<close>

abbreviation deck_within :: "card list \<Rightarrow> 'g app_state \<Rightarrow> bool" where
  "deck_within order st \<equiv> (\<forall>d. deck st = Some d \<longrightarrow> suffix (remaining d) order)"

section \<open>Properties\<close>

subsection \<open>Auxiliary facts\<close>

lemma str_in_sublist: "str_in sub s = sublist sub s"
  by (induction s) (simp_all add: sublist_Cons_right)

lemmas py_int_eval = py_int_def strip_def is_space_def unsigned_int_def digit_of_def

lemma check_json_pass:
  "path req \<notin> set [''/dealer/openapi.yaml'', ''/dealer/openapi.json''] \<Longrightarrow>
   (check_json req = Inr None) =
     (sublist ''json'' (case accept req of None \<Rightarrow> ''*/*'' | Some v \<Rightarrow> v)
      \<or> args_get (args req) ''$format'' = Some ''json'')"
  by (auto simp: check_json_def abort_def str_in_sublist split: option.splits)

lemma check_json_cases: "check_json req = Inr None \<or> check_json req = Inl (Abort 400)"
  by (simp add: check_json_def abort_def BAD_REQUEST_def)

subsection \<open>The gate runs before the views\<close>

text \<open>
  Claim C5. A request to one of the two dealing paths passes \<^verbatim>\<open>check_json\<close> exactly when
  its \<^verbatim>\<open>Accept\<close> header (\<^verbatim>\<open>*/*\<close> when absent) contains \<^verbatim>\<open>json\<close> or its first
  \<^verbatim>\<open>$format\<close> argument is \<^verbatim>\<open>json\<close>. When it passes, the view runs; when it does not,
  the answer is 400 and the state is untouched, so no validation and no dealing has run.
  The two OpenAPI paths always pass.
\<close>

theorem gate_before_dealing:
  "(path req \<in> {''/dealer/hand'', ''/dealer/hands''} \<longrightarrow>
      ((check_json req = Inr None) =
         (sublist ''json'' (case accept req of None \<Rightarrow> ''*/*'' | Some v \<Rightarrow> v)
          \<or> args_get (args req) ''$format'' = Some ''json''))
      \<and> (check_json req = Inr None \<longrightarrow>
            full_dispatch_request R P req st = dispatch_request R P req st)
      \<and> (check_json req \<noteq> Inr None \<longrightarrow>
            full_dispatch_request R P req st = (Inl (Abort 400), st)))
   \<and> (path req \<in> {''/dealer/openapi.yaml'', ''/dealer/openapi.json''} \<longrightarrow>
        check_json req = Inr None)"
proof -
  have exempt: "path req \<in> {''/dealer/openapi.yaml'', ''/dealer/openapi.json''} \<longrightarrow>
        check_json req = Inr None"
    by (simp add: check_json_def)
  have through: "check_json req = Inr None \<longrightarrow>
      full_dispatch_request R P req st = dispatch_request R P req st"
    by (simp add: full_dispatch_request_def)
  have stopped: "check_json req \<noteq> Inr None \<longrightarrow>
      full_dispatch_request R P req st = (Inl (Abort 400), st)"
    using check_json_cases [of req] by (auto simp: full_dispatch_request_def)
  have pass: "path req \<in> {''/dealer/hand'', ''/dealer/hands''} \<longrightarrow>
      ((check_json req = Inr None) =
         (sublist ''json'' (case accept req of None \<Rightarrow> ''*/*'' | Some v \<Rightarrow> v)
          \<or> args_get (args req) ''$format'' = Some ''json''))"
    using check_json_pass [of req] by auto
  from exempt through stopped pass show ?thesis by blast
qed

theorem gate_before_dealing_witness:
  "full_dispatch_request rot_random (seeded_platform ''42'' 0)
     \<lparr>path = ''/dealer/hand'', accept = Some ''text/html'', args = [(''cards'', ''5'')]\<rparr>
     (initial_state 0) = (Inl (Abort 400), initial_state 0)
   \<and> check_json \<lparr>path = ''/dealer/hands'', accept = Some ''application/json'', args = []\<rparr> = Inr None
   \<and> check_json \<lparr>path = ''/dealer/openapi.yaml'', accept = None, args = []\<rparr> = Inr None"
proof -
  have no: "\<not> sublist ''json'' ''text/html''"
    by (simp add: sublist_code)
  have yes: "sublist ''json'' ''application/json''"
    by (simp add: sublist_code)
  have a: "full_dispatch_request rot_random (seeded_platform ''42'' 0)
     \<lparr>path = ''/dealer/hand'', accept = Some ''text/html'', args = [(''cards'', ''5'')]\<rparr>
     (initial_state 0) = (Inl (Abort 400), initial_state 0)"
    using no gate_before_dealing [of "\<lparr>path = ''/dealer/hand'', accept = Some ''text/html'',
      args = [(''cards'', ''5'')]\<rparr>" rot_random "seeded_platform ''42'' 0" "initial_state 0"]
    by (simp add: args_get_def)
  have b: "check_json \<lparr>path = ''/dealer/hands'', accept = Some ''application/json'', args = []\<rparr>
      = Inr None"
    using yes gate_before_dealing [of "\<lparr>path = ''/dealer/hands'',
      accept = Some ''application/json'', args = []\<rparr>" rot_random "seeded_platform ''42'' 0"
      "initial_state 0"]
    by simp
  have c: "check_json \<lparr>path = ''/dealer/openapi.yaml'', accept = None, args = []\<rparr> = Inr None"
    using gate_before_dealing [of "\<lparr>path = ''/dealer/openapi.yaml'', accept = None, args = []\<rparr>"
      rot_random "seeded_platform ''42'' 0" "initial_state 0"]
    by simp
  from a b c show ?thesis by simp
qed

lemma r02_check_json_cases:
  "r02_check_json req = Inr None \<or> r02_check_json req = Inl (Abort 400)"
  by (simp add: r02_check_json_def abort_def BAD_REQUEST_def)

lemma r02_check_json_pass:
  "(r02_check_json req = Inr None) =
     (sublist ''json'' (case accept req of None \<Rightarrow> ''*/*'' | Some v \<Rightarrow> v)
      \<or> args_get (args req) ''$format'' = Some ''json'')"
  by (auto simp: r02_check_json_def abort_def str_in_sublist split: option.splits)

lemma check_json_r02:
  "path req \<notin> {''/dealer/openapi.yaml'', ''/dealer/openapi.json''} \<Longrightarrow>
   check_json req = r02_check_json req"
  by (simp add: check_json_def r02_check_json_def)

lemma no_json_in_star: "\<not> sublist ''json'' ''*/*''"
  by (simp add: sublist_code)

subsection \<open>The substring test on the Accept header\<close>

text \<open>
  Claim C10, as stated, fails on recipe 3: a request to \<^verbatim>\<open>/dealer/openapi.json\<close> with no
  \<^verbatim>\<open>Accept\<close> header and no \<^verbatim>\<open>$format\<close> argument passes \<^verbatim>\<open>check_json\<close>, because the
  path is tested first.
\<close>

theorem accept_test_exempt_counterexample:
  "accept \<lparr>path = ''/dealer/openapi.json'', accept = None, args = []\<rparr> = None
   \<and> args_get (args \<lparr>path = ''/dealer/openapi.json'', accept = None, args = []\<rparr>) ''$format''
       = None
   \<and> check_json \<lparr>path = ''/dealer/openapi.json'', accept = None, args = []\<rparr> = Inr None
   \<and> check_json \<lparr>path = ''/dealer/openapi.json'', accept = None, args = []\<rparr>
       \<noteq> Inl (Abort 400)"
  by (simp add: check_json_def args_get_def)

text \<open>
  Claim C10, amended. The gate of recipe 2 passes a request exactly when \<^verbatim>\<open>json\<close> is a
  substring of the \<^verbatim>\<open>Accept\<close> value (\<^verbatim>\<open>*/*\<close> when the header is absent) or the first
  \<^verbatim>\<open>$format\<close> argument is \<^verbatim>\<open>json\<close>, and answers 400 otherwise. So a request with no
  \<^verbatim>\<open>Accept\<close> header, or with \<^verbatim>\<open>*/*\<close>, is answered 400 exactly when \<^verbatim>\<open>$format\<close> is not
  \<^verbatim>\<open>json\<close>, and every \<^verbatim>\<open>Accept\<close> value that contains \<^verbatim>\<open>json\<close> passes. The gate of
  recipe 3 does the same on every path but the two OpenAPI paths.
\<close>

theorem accept_test_substring:
  "((r02_check_json req = Inr None) =
      (sublist ''json'' (case accept req of None \<Rightarrow> ''*/*'' | Some v \<Rightarrow> v)
       \<or> args_get (args req) ''$format'' = Some ''json''))
   \<and> (r02_check_json req \<noteq> Inr None \<longrightarrow> r02_check_json req = Inl (Abort 400))
   \<and> (accept req \<in> {None, Some ''*/*''} \<longrightarrow>
        (r02_check_json req = Inl (Abort 400)) = (args_get (args req) ''$format'' \<noteq> Some ''json''))
   \<and> (\<forall>v. accept req = Some v \<and> sublist ''json'' v \<longrightarrow> r02_check_json req = Inr None)
   \<and> (path req \<notin> {''/dealer/openapi.yaml'', ''/dealer/openapi.json''} \<longrightarrow>
        check_json req = r02_check_json req)"
proof -
  have pass: "(r02_check_json req = Inr None) =
      (sublist ''json'' (case accept req of None \<Rightarrow> ''*/*'' | Some v \<Rightarrow> v)
       \<or> args_get (args req) ''$format'' = Some ''json'')"
    by (rule r02_check_json_pass)
  have stop: "r02_check_json req \<noteq> Inr None \<longrightarrow> r02_check_json req = Inl (Abort 400)"
    using r02_check_json_cases [of req] by blast
  have star: "accept req \<in> {None, Some ''*/*''} \<longrightarrow>
        (r02_check_json req = Inl (Abort 400)) = (args_get (args req) ''$format'' \<noteq> Some ''json'')"
    using pass r02_check_json_cases [of req] no_json_in_star by auto
  have sub: "\<forall>v. accept req = Some v \<and> sublist ''json'' v \<longrightarrow> r02_check_json req = Inr None"
    using pass by auto
  have same: "path req \<notin> {''/dealer/openapi.yaml'', ''/dealer/openapi.json''} \<longrightarrow>
        check_json req = r02_check_json req"
    using check_json_r02 [of req] by blast
  show ?thesis
    by (rule conjI [OF pass conjI [OF stop conjI [OF star conjI [OF sub same]]]])
qed

theorem accept_test_substring_witness:
  "check_json \<lparr>path = ''/dealer/hand'', accept = None, args = []\<rparr> = Inl (Abort 400)
   \<and> r02_check_json \<lparr>path = ''/dealer/hand'', accept = Some ''*/*'', args = []\<rparr> = Inl (Abort 400)
   \<and> r02_check_json \<lparr>path = ''/dealer/hand'', accept = Some ''notjson/x'', args = []\<rparr> = Inr None"
proof -
  let ?a = "\<lparr>path = ''/dealer/hand'', accept = None, args = []\<rparr>"
  let ?b = "\<lparr>path = ''/dealer/hand'', accept = Some ''*/*'', args = []\<rparr>"
  let ?c = "\<lparr>path = ''/dealer/hand'', accept = Some ''notjson/x'', args = []\<rparr>"
  note star = accept_test_substring [THEN conjunct2, THEN conjunct2, THEN conjunct1]
  note sub = accept_test_substring [THEN conjunct2, THEN conjunct2, THEN conjunct2,
    THEN conjunct1]
  note same = accept_test_substring [THEN conjunct2, THEN conjunct2, THEN conjunct2,
    THEN conjunct2]
  have a2: "r02_check_json ?a = Inl (Abort 400)"
    using star [of ?a] by (simp add: args_get_def)
  have a1: "check_json ?a = r02_check_json ?a"
    using same [of ?a] by simp
  have b: "r02_check_json ?b = Inl (Abort 400)"
    using star [of ?b] by (simp add: args_get_def)
  have "sublist ''json'' ''notjson/x''"
    by (simp add: sublist_code)
  then have c: "r02_check_json ?c = Inr None"
    using sub [of ?c] by simp
  from a1 a2 b c show ?thesis by simp
qed

lemma all_cards_length: "length all_cards = 52"
  by (simp add: all_cards_def SUITS_def upto.simps)

lemma all_cards_distinct: "distinct all_cards"
  by (simp add: all_cards_def SUITS_def upto.simps)

lemma fresh_length: "mset (fresh_order R P) = mset all_cards \<Longrightarrow> length (fresh_order R P) = 52"
  using mset_eq_length [of "fresh_order R P" all_cards] by (simp add: all_cards_length)

lemma get_deck_None:
  "deck st = None \<Longrightarrow>
   get_deck R P st =
     (\<lparr>remaining = fresh_order R P\<rparr>,
      st\<lparr>deck := Some \<lparr>remaining = fresh_order R P\<rparr>,
         rng := snd (shuffle R (random_seed R P (environ P ''DEAL_APP_SEED'')) all_cards)\<rparr>)"
  by (simp add: get_deck_def Deck_def fresh_order_def split: prod.splits)

lemma get_deck_Some: "deck st = Some d \<Longrightarrow> get_deck R P st = (d, st)"
  by (simp add: get_deck_def)

lemma Deck_deal_error: "Deck_deal n d = Inl e \<Longrightarrow> e = DeckExhausted"
  by (simp add: Deck_deal_def split: if_splits)

lemma deal_reject_parse:
  "hand_size_of req = None \<Longrightarrow> deal R P req st = (Inl (Abort 400), st)"
  by (simp add: deal_def abort_def BAD_REQUEST_def)

lemma deal_reject_range:
  "hand_size_of req = Some n \<Longrightarrow> n < 1 \<or> 53 \<le> n \<Longrightarrow> deal R P req st = (Inl (Abort 400), st)"
  by (auto simp: deal_def abort_def BAD_REQUEST_def)

lemma deal_accept:
  assumes "hand_size_of req = Some n" "1 \<le> n" "n < 53"
  shows "fst (deal R P req st) \<noteq> Inl (Abort 400)"
proof -
  obtain d st1 where g: "get_deck R P st = (d, st1)"
    by (cases "get_deck R P st")
  show ?thesis
  proof (cases "Deck_deal (nat n) d")
    case (Inl e)
    then have "e = DeckExhausted" by (rule Deck_deal_error)
    with Inl assms g show ?thesis by (simp add: deal_def)
  next
    case (Inr r)
    with assms g show ?thesis by (cases r) (simp add: deal_def)
  qed
qed

lemma deal_fresh:
  assumes "hand_size_of req = Some n" "1 \<le> n" "n < 53" "deck st = None"
    "mset (fresh_order R P) = mset all_cards"
  shows "fst (deal R P req st) = Inr (Cards_body (map to_json (take (nat n) (fresh_order R P))))"
proof -
  have "length (fresh_order R P) = 52" using assms(5) by (rule fresh_length)
  with assms(1-4) show ?thesis
    by (simp add: deal_def get_deck_None Deck_deal_def)
qed

lemma hand_size_of_literal:
  "hand_size_of (req\<lparr>args := [(''cards'', ''0'')]\<rparr>) = Some 0"
  "hand_size_of (req\<lparr>args := [(''cards'', ''53'')]\<rparr>) = Some 53"
  "hand_size_of (req\<lparr>args := [(''cards'', ''1'')]\<rparr>) = Some 1"
  "hand_size_of (req\<lparr>args := [(''cards'', ''52'')]\<rparr>) = Some 52"
  by (simp_all add: hand_size_of_def args_get_def py_int_eval)

lemma dispatch_hand:
  "check_json req = Inr None \<Longrightarrow> path req = ''/dealer/hand'' \<Longrightarrow>
   full_dispatch_request R P req st = deal R P req st"
  by (simp add: full_dispatch_request_def dispatch_request_def)

subsection \<open>Validation of the single hand size\<close>

text \<open>
  Claim C1. The view \<^verbatim>\<open>deal\<close> of \<^verbatim>\<open>/dealer/hand\<close> (the same text in both recipes)
  takes the hand size from the first \<^verbatim>\<open>cards\<close> argument, 5 when there is none, and
  answers 400 exactly when that value does not parse as an integer or lies outside the
  range from 1 to 52; the state is then untouched. \<^verbatim>\<open>cards=0\<close> and \<^verbatim>\<open>cards=53\<close> are
  answered 400, \<^verbatim>\<open>cards=1\<close> and \<^verbatim>\<open>cards=52\<close> are not, and on a process that has no
  deck yet, and whose fresh deck is a permutation of the full set, they return the first
  card and all 52 cards of the fresh deck. A request to \<^verbatim>\<open>/dealer/hand\<close> that passes the
  gate gets the answer of this view.
\<close>

theorem single_hand_validation:
  "((fst (deal R P req st) = Inl (Abort 400)) =
      (case hand_size_of req of None \<Rightarrow> True | Some n \<Rightarrow> n < 1 \<or> 53 \<le> n))
   \<and> (fst (deal R P req st) = Inl (Abort 400) \<longrightarrow> snd (deal R P req st) = st)
   \<and> (args_get (args req) ''cards'' = None \<longrightarrow> hand_size_of req = Some 5)
   \<and> (\<forall>v. args_get (args req) ''cards'' = Some v \<longrightarrow> hand_size_of req = py_int v)
   \<and> fst (deal R P (req\<lparr>args := [(''cards'', ''0'')]\<rparr>) st) = Inl (Abort 400)
   \<and> fst (deal R P (req\<lparr>args := [(''cards'', ''53'')]\<rparr>) st) = Inl (Abort 400)
   \<and> fst (deal R P (req\<lparr>args := [(''cards'', ''1'')]\<rparr>) st) \<noteq> Inl (Abort 400)
   \<and> fst (deal R P (req\<lparr>args := [(''cards'', ''52'')]\<rparr>) st) \<noteq> Inl (Abort 400)
   \<and> (deck st = None \<and> mset (fresh_order R P) = mset all_cards \<longrightarrow>
        fst (deal R P (req\<lparr>args := [(''cards'', ''1'')]\<rparr>) st)
          = Inr (Cards_body (map to_json (take 1 (fresh_order R P))))
        \<and> fst (deal R P (req\<lparr>args := [(''cards'', ''52'')]\<rparr>) st)
          = Inr (Cards_body (map to_json (fresh_order R P))))
   \<and> (check_json req = Inr None \<and> path req = ''/dealer/hand'' \<longrightarrow>
        full_dispatch_request R P req st = deal R P req st)"
proof -
  have iff: "(fst (deal R P req st) = Inl (Abort 400)) =
      (case hand_size_of req of None \<Rightarrow> True | Some n \<Rightarrow> n < 1 \<or> 53 \<le> n)"
  proof (cases "hand_size_of req")
    case None
    then show ?thesis by (simp add: deal_reject_parse)
  next
    case (Some n)
    show ?thesis
    proof (cases "n < 1 \<or> 53 \<le> n")
      case True
      with Some show ?thesis by (simp add: deal_reject_range)
    next
      case False
      with Some deal_accept [of req n R P st] show ?thesis by simp
    qed
  qed
  have unchanged: "fst (deal R P req st) = Inl (Abort 400) \<longrightarrow> snd (deal R P req st) = st"
  proof
    assume "fst (deal R P req st) = Inl (Abort 400)"
    with iff have c: "case hand_size_of req of None \<Rightarrow> True | Some n \<Rightarrow> n < 1 \<or> 53 \<le> n"
      by simp
    show "snd (deal R P req st) = st"
    proof (cases "hand_size_of req")
      case None
      then show ?thesis by (simp add: deal_reject_parse)
    next
      case (Some n)
      with c have "n < 1 \<or> 53 \<le> n" by simp
      with Some show ?thesis by (simp add: deal_reject_range)
    qed
  qed
  have dflt: "args_get (args req) ''cards'' = None \<longrightarrow> hand_size_of req = Some 5"
    by (simp add: hand_size_of_def)
  have given: "\<forall>v. args_get (args req) ''cards'' = Some v \<longrightarrow> hand_size_of req = py_int v"
    by (simp add: hand_size_of_def)
  have c0: "fst (deal R P (req\<lparr>args := [(''cards'', ''0'')]\<rparr>) st) = Inl (Abort 400)"
    by (simp add: deal_reject_range [OF hand_size_of_literal(1)])
  have c53: "fst (deal R P (req\<lparr>args := [(''cards'', ''53'')]\<rparr>) st) = Inl (Abort 400)"
    by (simp add: deal_reject_range [OF hand_size_of_literal(2)])
  have c1: "fst (deal R P (req\<lparr>args := [(''cards'', ''1'')]\<rparr>) st) \<noteq> Inl (Abort 400)"
    by (rule deal_accept [OF hand_size_of_literal(3)]) simp_all
  have c52: "fst (deal R P (req\<lparr>args := [(''cards'', ''52'')]\<rparr>) st) \<noteq> Inl (Abort 400)"
    by (rule deal_accept [OF hand_size_of_literal(4)]) simp_all
  have fresh: "deck st = None \<and> mset (fresh_order R P) = mset all_cards \<longrightarrow>
        fst (deal R P (req\<lparr>args := [(''cards'', ''1'')]\<rparr>) st)
          = Inr (Cards_body (map to_json (take 1 (fresh_order R P))))
        \<and> fst (deal R P (req\<lparr>args := [(''cards'', ''52'')]\<rparr>) st)
          = Inr (Cards_body (map to_json (fresh_order R P)))"
  proof (intro impI, elim conjE)
    assume a: "deck st = None" "mset (fresh_order R P) = mset all_cards"
    have l: "length (fresh_order R P) = 52" using a(2) by (rule fresh_length)
    have one: "fst (deal R P (req\<lparr>args := [(''cards'', ''1'')]\<rparr>) st)
          = Inr (Cards_body (map to_json (take 1 (fresh_order R P))))"
      by (simp add: deal_fresh [OF hand_size_of_literal(3) _ _ a])
    have all: "fst (deal R P (req\<lparr>args := [(''cards'', ''52'')]\<rparr>) st)
          = Inr (Cards_body (map to_json (fresh_order R P)))"
      using l by (simp add: deal_fresh [OF hand_size_of_literal(4) _ _ a])
    from one all show "fst (deal R P (req\<lparr>args := [(''cards'', ''1'')]\<rparr>) st)
          = Inr (Cards_body (map to_json (take 1 (fresh_order R P))))
        \<and> fst (deal R P (req\<lparr>args := [(''cards'', ''52'')]\<rparr>) st)
          = Inr (Cards_body (map to_json (fresh_order R P)))" by (rule conjI)
  qed
  have route: "check_json req = Inr None \<and> path req = ''/dealer/hand'' \<longrightarrow>
        full_dispatch_request R P req st = deal R P req st"
    using dispatch_hand [of req R P st] by simp
  show ?thesis
    by (rule conjI [OF iff conjI [OF unchanged conjI [OF dflt conjI [OF given conjI [OF c0
      conjI [OF c53 conjI [OF c1 conjI [OF c52 conjI [OF fresh route]]]]]]]]])
qed


lemma mset_rotate1_eq: "mset (rotate1 xs) = mset xs"
  by (cases xs) simp_all

lemma mset_rotate_eq: "mset (rotate n xs) = mset xs"
  by (induction n) (simp_all add: mset_rotate1_eq)

lemma fresh_order_rot:
  "fresh_order rot_random (seeded_platform s e) = rotate (length s) all_cards"
  by (simp add: fresh_order_def rot_random_def seeded_platform_def random_seed_def)

theorem single_hand_validation_witness:
  "fst (deal rot_random (seeded_platform ''42'' 0)
      \<lparr>path = ''/dealer/hand'', accept = Some ''application/json'', args = [(''cards'', ''52'')]\<rparr>
      (initial_state 0)) = Inr (Cards_body (map to_json (rotate 2 all_cards)))
   \<and> hand_size_of \<lparr>path = ''/dealer/hand'', accept = None, args = []\<rparr> = Some 5
   \<and> hand_size_of \<lparr>path = ''/dealer/hand'', accept = None, args = [(''cards'', ''7'')]\<rparr>
       = py_int ''7''
   \<and> full_dispatch_request rot_random (seeded_platform ''42'' 0)
       \<lparr>path = ''/dealer/hand'', accept = Some ''application/json'', args = []\<rparr> (initial_state 0)
      = deal rot_random (seeded_platform ''42'' 0)
       \<lparr>path = ''/dealer/hand'', accept = Some ''application/json'', args = []\<rparr> (initial_state 0)"
proof -
  let ?R = rot_random
  let ?P = "seeded_platform ''42'' 0"
  let ?r = "\<lparr>path = ''/dealer/hand'', accept = Some ''application/json'', args = []\<rparr>"
  let ?n = "\<lparr>path = ''/dealer/hand'', accept = None, args = []\<rparr>"
  let ?s = "\<lparr>path = ''/dealer/hand'', accept = None, args = [(''cards'', ''7'')]\<rparr>"
  note T = single_hand_validation [THEN conjunct2, THEN conjunct2]
  note dflt = T [THEN conjunct1]
  note given = T [THEN conjunct2, THEN conjunct1]
  note T6 = T [THEN conjunct2, THEN conjunct2, THEN conjunct2, THEN conjunct2, THEN conjunct2,
    THEN conjunct2]
  note fresh = T6 [THEN conjunct1]
  note route = T6 [THEN conjunct2]
  have perm: "mset (fresh_order ?R ?P) = mset all_cards"
    by (simp only: fresh_order_rot mset_rotate_eq)
  have a: "fst (deal ?R ?P (?r\<lparr>args := [(''cards'', ''52'')]\<rparr>) (initial_state 0))
      = Inr (Cards_body (map to_json (fresh_order ?R ?P)))"
    using fresh [of "initial_state 0" ?R ?P ?r] perm by (simp add: initial_state_def)
  have b: "hand_size_of ?n = Some 5"
    using dflt [of ?n] by (simp add: args_get_def)
  have c: "hand_size_of ?s = py_int ''7''"
    using given [of ?s] by (simp add: args_get_def)
  have "sublist ''json'' ''application/json''"
    by (simp add: sublist_code)
  then have pass: "check_json ?r = Inr None"
    by (simp add: check_json_def str_in_sublist)
  have d: "full_dispatch_request ?R ?P ?r (initial_state 0) = deal ?R ?P ?r (initial_state 0)"
    using route [of ?r ?R ?P "initial_state 0"] pass by simp
  from a b c d show ?thesis by (simp add: fresh_order_rot numeral_2_eq_2)
qed

lemma deal_each_error: "deal_each ns d = (Inl e, d') \<Longrightarrow> e = DeckExhausted"
proof (induction ns arbitrary: d d')
  case Nil
  then show ?case by simp
next
  case (Cons n ns)
  show ?case
  proof (cases "Deck_deal (nat n) d")
    case (Inl e')
    with Cons.prems show ?thesis by (simp add: Deck_deal_error)
  next
    case (Inr r)
    obtain h d1 where r: "r = (h, d1)" by (cases r)
    obtain x d2 where rest: "deal_each ns d1 = (x, d2)" by (cases "deal_each ns d1")
    from Cons.prems Inr r rest obtain e' where "x = Inl e'" "e' = e"
      by (cases x) simp_all
    with rest have "deal_each ns d1 = (Inl e, d2)" by simp
    then show ?thesis by (rule Cons.IH)
  qed
qed

lemma deal_each_enough:
  "\<forall>n \<in> set ns. 0 \<le> n \<Longrightarrow> sum_list ns \<le> int (length (remaining d)) \<Longrightarrow>
   \<exists>hs d'. deal_each ns d = (Inr hs, d') \<and> map length hs = map nat ns
     \<and> concat hs @ remaining d' = remaining d"
proof (induction ns arbitrary: d)
  case Nil
  then show ?case by simp
next
  case (Cons n ns)
  have nonneg: "0 \<le> sum_list ns"
    using Cons.prems(1) by (simp add: sum_list_nonneg)
  have n0: "0 \<le> n" using Cons.prems(1) by simp
  have fits: "nat n \<le> length (remaining d)"
    using Cons.prems(2) nonneg by simp
  let ?d1 = "d\<lparr>remaining := drop (nat n) (remaining d)\<rparr>"
  have first: "Deck_deal (nat n) d = Inr (take (nat n) (remaining d), ?d1)"
    using fits by (simp add: Deck_deal_def)
  have "sum_list ns \<le> int (length (remaining ?d1))"
    using Cons.prems(2) n0 fits by simp
  with Cons.IH [of ?d1] Cons.prems(1)
  obtain hs d' where rest: "deal_each ns ?d1 = (Inr hs, d')" "map length hs = map nat ns"
      "concat hs @ remaining d' = remaining ?d1"
    by auto
  have "deal_each (n # ns) d = (Inr (take (nat n) (remaining d) # hs), d')"
    using first rest(1) by simp
  moreover have "map length (take (nat n) (remaining d) # hs) = map nat (n # ns)"
    using fits rest(2) by simp
  moreover have "concat (take (nat n) (remaining d) # hs) @ remaining d' = remaining d"
    using rest(3) by simp
  ultimately show ?case by blast
qed

lemma multi_hand_reject:
  "\<not> sizes_ok (hand_sizes_of req) \<Longrightarrow> multi_hand R P req st = (Inl (Abort 400), st)"
  by (auto simp: multi_hand_def Let_def abort_def BAD_REQUEST_def)

lemma multi_hand_deals:
  "sizes_ok (hand_sizes_of req) \<Longrightarrow> get_deck R P st = (d, st1) \<Longrightarrow>
   multi_hand R P req st =
     (case deal_each (hand_sizes_of req) d of
        (Inl e, d') \<Rightarrow> (Inl e, st1\<lparr>deck := Some d'\<rparr>)
      | (Inr hands, d') \<Rightarrow>
          (Inr (Hands_body
             (map (\<lambda>(i, h). \<lparr>hand = i, cards = map to_json h\<rparr>) (List.enumerate 0 hands))),
           st1\<lparr>deck := Some d'\<rparr>))"
  by (simp add: multi_hand_def Let_def)

lemma multi_hand_accept:
  assumes "sizes_ok (hand_sizes_of req)"
  shows "fst (multi_hand R P req st) \<noteq> Inl (Abort 400)"
proof -
  obtain d st1 where g: "get_deck R P st = (d, st1)"
    by (cases "get_deck R P st")
  obtain x d' where r: "deal_each (hand_sizes_of req) d = (x, d')"
    by (cases "deal_each (hand_sizes_of req) d")
  show ?thesis
  proof (cases x)
    case (Inl e)
    with r have "e = DeckExhausted" by (simp add: deal_each_error)
    with Inl r show ?thesis by (simp add: multi_hand_deals [OF assms g])
  next
    case (Inr hs)
    with r show ?thesis by (simp add: multi_hand_deals [OF assms g])
  qed
qed

lemma cards_of_body:
  "map (\<lambda>h. length (cards h))
     (map (\<lambda>(i, h). \<lparr>hand = i, cards = map to_json h\<rparr>) (List.enumerate n hs)) = map length hs"
  by (induction hs arbitrary: n) simp_all

lemma sizes_ok_nonneg: "sizes_ok ns \<Longrightarrow> \<forall>n \<in> set ns. 0 \<le> n"
  by (auto simp: list_all_iff)

lemma multi_hand_enough:
  assumes ok: "sizes_ok (hand_sizes_of req)"
    and g: "get_deck R P st = (d, st1)"
    and fits: "sum_list (hand_sizes_of req) \<le> int (length (remaining d))"
  shows "\<exists>hs d'. deal_each (hand_sizes_of req) d = (Inr hs, d')
     \<and> map length hs = map nat (hand_sizes_of req)
     \<and> concat hs @ remaining d' = remaining d
     \<and> multi_hand R P req st =
         (Inr (Hands_body
            (map (\<lambda>(i, h). \<lparr>hand = i, cards = map to_json h\<rparr>) (List.enumerate 0 hs))),
          st1\<lparr>deck := Some d'\<rparr>)"
proof -
  from deal_each_enough [OF sizes_ok_nonneg [OF ok] fits]
  obtain hs d' where r: "deal_each (hand_sizes_of req) d = (Inr hs, d')"
      "map length hs = map nat (hand_sizes_of req)" "concat hs @ remaining d' = remaining d"
    by blast
  have "multi_hand R P req st =
         (Inr (Hands_body
            (map (\<lambda>(i, h). \<lparr>hand = i, cards = map to_json h\<rparr>) (List.enumerate 0 hs))),
          st1\<lparr>deck := Some d'\<rparr>)"
    using r(1) by (simp add: multi_hand_deals [OF ok g])
  with r show ?thesis by blast
qed

lemma hand_sizes_of_default:
  "args_getlist (args req) ''cards'' = [] \<Longrightarrow> hand_sizes_of req = [13, 13, 13, 13]"
  by (simp add: hand_sizes_of_def args_getlist_type_def map_filter_simps)

lemma hand_sizes_of_parsed:
  assumes "args_getlist (args req) ''cards'' \<noteq> []"
    and "\<forall>v \<in> set (args_getlist (args req) ''cards''). py_int v \<noteq> None"
  shows "hand_sizes_of req = map (\<lambda>v. the (py_int v)) (args_getlist (args req) ''cards'')"
proof -
  have "List.map_filter py_int (args_getlist (args req) ''cards'')
      = map (\<lambda>v. the (py_int v)) (args_getlist (args req) ''cards'')"
    using assms(2) by (simp add: map_filter_def comp_def cong: filter_cong)
  with assms(1) show ?thesis
    by (simp add: hand_sizes_of_def args_getlist_type_def)
qed

subsection \<open>Validation of the list of hand sizes\<close>

text \<open>
  Claim C3. With no \<^verbatim>\<open>cards\<close> argument the sizes of \<^verbatim>\<open>multi_hand\<close> are 13, 13, 13, 13;
  with arguments that all parse they are the parsed values in order. The view answers
  400 exactly when some size lies outside the range from 1 to 52 or the sum is 53 or
  more; in particular a sum of exactly 53 is answered 400. Sizes in range whose sum is
  52, on a process that has no deck yet and whose fresh deck is a permutation of the full
  set, are answered with one hand of each requested length.
\<close>

theorem multi_hand_sizes:
  "(args_getlist (args req) ''cards'' = [] \<longrightarrow> hand_sizes_of req = [13, 13, 13, 13])
   \<and> (args_getlist (args req) ''cards'' \<noteq> []
        \<and> (\<forall>v \<in> set (args_getlist (args req) ''cards''). py_int v \<noteq> None) \<longrightarrow>
      hand_sizes_of req = map (\<lambda>v. the (py_int v)) (args_getlist (args req) ''cards''))
   \<and> ((fst (multi_hand R P req st) = Inl (Abort 400)) = (\<not> sizes_ok (hand_sizes_of req)))
   \<and> (sum_list (hand_sizes_of req) = 53 \<longrightarrow> fst (multi_hand R P req st) = Inl (Abort 400))
   \<and> (list_all (\<lambda>n. 1 \<le> n \<and> n < 53) (hand_sizes_of req) \<and> sum_list (hand_sizes_of req) = 52
        \<and> deck st = None \<and> mset (fresh_order R P) = mset all_cards \<longrightarrow>
      (\<exists>body. fst (multi_hand R P req st) = Inr (Hands_body body)
         \<and> map (\<lambda>h. length (cards h)) body = map nat (hand_sizes_of req)))"
proof -
  have dflt: "args_getlist (args req) ''cards'' = [] \<longrightarrow> hand_sizes_of req = [13, 13, 13, 13]"
    by (simp add: hand_sizes_of_default)
  have parsed: "args_getlist (args req) ''cards'' \<noteq> []
        \<and> (\<forall>v \<in> set (args_getlist (args req) ''cards''). py_int v \<noteq> None) \<longrightarrow>
      hand_sizes_of req = map (\<lambda>v. the (py_int v)) (args_getlist (args req) ''cards'')"
    using hand_sizes_of_parsed [of req] by blast
  have iff: "(fst (multi_hand R P req st) = Inl (Abort 400)) = (\<not> sizes_ok (hand_sizes_of req))"
  proof (cases "sizes_ok (hand_sizes_of req)")
    case True
    then have "fst (multi_hand R P req st) \<noteq> Inl (Abort 400)" by (rule multi_hand_accept)
    with True show ?thesis by simp
  next
    case False
    then have "multi_hand R P req st = (Inl (Abort 400), st)" by (rule multi_hand_reject)
    with False show ?thesis by simp
  qed
  have s53: "sum_list (hand_sizes_of req) = 53 \<longrightarrow> fst (multi_hand R P req st) = Inl (Abort 400)"
    using iff by simp
  have s52: "list_all (\<lambda>n. 1 \<le> n \<and> n < 53) (hand_sizes_of req) \<and> sum_list (hand_sizes_of req) = 52
        \<and> deck st = None \<and> mset (fresh_order R P) = mset all_cards \<longrightarrow>
      (\<exists>body. fst (multi_hand R P req st) = Inr (Hands_body body)
         \<and> map (\<lambda>h. length (cards h)) body = map nat (hand_sizes_of req))"
  proof (intro impI, elim conjE)
    assume a: "list_all (\<lambda>n. 1 \<le> n \<and> n < 53) (hand_sizes_of req)"
      "sum_list (hand_sizes_of req) = 52" "deck st = None"
      "mset (fresh_order R P) = mset all_cards"
    have ok: "sizes_ok (hand_sizes_of req)" using a(1,2) by simp
    have l: "length (fresh_order R P) = 52" using a(4) by (rule fresh_length)
    note g = get_deck_None [OF a(3), of R P]
    have fits: "sum_list (hand_sizes_of req) \<le> int (length (remaining \<lparr>remaining = fresh_order R P\<rparr>))"
      using a(2) l by simp
    from multi_hand_enough [OF ok g fits]
    obtain hs d' where r: "map length hs = map nat (hand_sizes_of req)"
      "fst (multi_hand R P req st) = Inr (Hands_body
            (map (\<lambda>(i, h). \<lparr>hand = i, cards = map to_json h\<rparr>) (List.enumerate 0 hs)))"
      by force
    have "map (\<lambda>h. length (cards h))
        (map (\<lambda>(i, h). \<lparr>hand = i, cards = map to_json h\<rparr>) (List.enumerate 0 hs))
        = map nat (hand_sizes_of req)"
      using r(1) by (simp only: cards_of_body)
    with r(2) show "\<exists>body. fst (multi_hand R P req st) = Inr (Hands_body body)
         \<and> map (\<lambda>h. length (cards h)) body = map nat (hand_sizes_of req)"
      by blast
  qed
  show ?thesis
    by (rule conjI [OF dflt conjI [OF parsed conjI [OF iff conjI [OF s53 s52]]]])
qed

lemma dispatch_hands:
  "check_json req = Inr None \<Longrightarrow> path req = ''/dealer/hands'' \<Longrightarrow>
   full_dispatch_request R P req st = multi_hand R P req st"
  by (simp add: full_dispatch_request_def dispatch_request_def)

lemma dispatch_stopped:
  "check_json req \<noteq> Inr None \<Longrightarrow> full_dispatch_request R P req st = (Inl (Abort 400), st)"
  using check_json_cases [of req] by (auto simp: full_dispatch_request_def)

text \<open>
  Claim C4. When the list of sizes fails the validation of \<^verbatim>\<open>multi_hand\<close>, the view
  answers 400 and returns the state it was given, deck included: no card has been dealt.
  The same holds for the whole request to \<^verbatim>\<open>/dealer/hands\<close>, whether or not the gate
  stops it first.
\<close>

theorem multi_hand_rejects_whole:
  "\<not> sizes_ok (hand_sizes_of req) \<longrightarrow>
     multi_hand R P req st = (Inl (Abort 400), st)
     \<and> (path req = ''/dealer/hands'' \<longrightarrow>
          full_dispatch_request R P req st = (Inl (Abort 400), st))"
proof
  assume bad: "\<not> sizes_ok (hand_sizes_of req)"
  then have view: "multi_hand R P req st = (Inl (Abort 400), st)"
    by (rule multi_hand_reject)
  have "path req = ''/dealer/hands'' \<longrightarrow>
          full_dispatch_request R P req st = (Inl (Abort 400), st)"
  proof
    assume p: "path req = ''/dealer/hands''"
    show "full_dispatch_request R P req st = (Inl (Abort 400), st)"
    proof (cases "check_json req = Inr None")
      case True
      then show ?thesis using p view by (simp add: dispatch_hands)
    next
      case False
      then show ?thesis by (rule dispatch_stopped)
    qed
  qed
  with view show "multi_hand R P req st = (Inl (Abort 400), st)
     \<and> (path req = ''/dealer/hands'' \<longrightarrow>
          full_dispatch_request R P req st = (Inl (Abort 400), st))"
    by (rule conjI)
qed


theorem multi_hand_sizes_witness:
  "hand_sizes_of \<lparr>path = ''/dealer/hands'', accept = Some ''application/json'', args = []\<rparr>
     = [13, 13, 13, 13]
   \<and> (\<exists>body. fst (multi_hand rot_random (seeded_platform ''42'' 0)
          \<lparr>path = ''/dealer/hands'', accept = Some ''application/json'', args = []\<rparr>
          (initial_state 0)) = Inr (Hands_body body)
        \<and> map (\<lambda>h. length (cards h)) body = [13, 13, 13, 13])
   \<and> hand_sizes_of \<lparr>path = ''/dealer/hands'', accept = Some ''application/json'',
        args = [(''cards'', ''50''), (''cards'', ''3'')]\<rparr> = [50, 3]
   \<and> fst (multi_hand rot_random (seeded_platform ''42'' 0)
        \<lparr>path = ''/dealer/hands'', accept = Some ''application/json'',
          args = [(''cards'', ''50''), (''cards'', ''3'')]\<rparr> (initial_state 0))
      = Inl (Abort 400)"
proof -
  let ?R = rot_random
  let ?P = "seeded_platform ''42'' 0"
  let ?r = "\<lparr>path = ''/dealer/hands'', accept = Some ''application/json'', args = []\<rparr>"
  let ?q = "\<lparr>path = ''/dealer/hands'', accept = Some ''application/json'',
        args = [(''cards'', ''50''), (''cards'', ''3'')]\<rparr>"
  note Tr = multi_hand_sizes [where req = ?r and R = ?R and P = ?P and st = "initial_state 0"]
  note Tq = multi_hand_sizes [where req = ?q and R = ?R and P = ?P and st = "initial_state 0"]
  have perm: "mset (fresh_order ?R ?P) = mset all_cards"
    by (simp only: fresh_order_rot mset_rotate_eq)
  have a: "hand_sizes_of ?r = [13, 13, 13, 13]"
    using Tr [THEN conjunct1] by (simp add: args_getlist_def)
  have b: "\<exists>body. fst (multi_hand ?R ?P ?r (initial_state 0)) = Inr (Hands_body body)
        \<and> map (\<lambda>h. length (cards h)) body = [13, 13, 13, 13]"
    using Tr [THEN conjunct2, THEN conjunct2, THEN conjunct2, THEN conjunct2] perm
    by (simp add: a initial_state_def)
  have c: "hand_sizes_of ?q = [50, 3]"
    using Tq [THEN conjunct2, THEN conjunct1] by (simp add: args_getlist_def py_int_eval)
  have d: "fst (multi_hand ?R ?P ?q (initial_state 0)) = Inl (Abort 400)"
    using Tq [THEN conjunct2, THEN conjunct2, THEN conjunct2, THEN conjunct1]
    by (simp add: c)
  from a b c d show ?thesis by simp
qed

theorem multi_hand_rejects_whole_witness:
  "multi_hand rot_random (seeded_platform ''42'' 0)
      \<lparr>path = ''/dealer/hands'', accept = Some ''application/json'',
        args = [(''cards'', ''50''), (''cards'', ''3'')]\<rparr>
      \<lparr>deck = Some \<lparr>remaining = take 9 all_cards\<rparr>, rng = 7\<rparr>
    = (Inl (Abort 400), \<lparr>deck = Some \<lparr>remaining = take 9 all_cards\<rparr>, rng = 7\<rparr>)
   \<and> full_dispatch_request rot_random (seeded_platform ''42'' 0)
      \<lparr>path = ''/dealer/hands'', accept = Some ''application/json'',
        args = [(''cards'', ''50''), (''cards'', ''3'')]\<rparr>
      \<lparr>deck = Some \<lparr>remaining = take 9 all_cards\<rparr>, rng = 7\<rparr>
    = (Inl (Abort 400), \<lparr>deck = Some \<lparr>remaining = take 9 all_cards\<rparr>, rng = 7\<rparr>)"
proof -
  let ?q = "\<lparr>path = ''/dealer/hands'', accept = Some ''application/json'',
        args = [(''cards'', ''50''), (''cards'', ''3'')]\<rparr>"
  have c: "hand_sizes_of ?q = [50, 3]"
    by (simp add: hand_sizes_of_def args_getlist_type_def args_getlist_def 
      py_int_eval)
  show ?thesis
    using multi_hand_rejects_whole [where req = ?q and R = rot_random
      and P = "seeded_platform ''42'' 0"
      and st = "\<lparr>deck = Some \<lparr>remaining = take 9 all_cards\<rparr>, rng = 7\<rparr>"]
    by (simp add: c)
qed

text \<open>
  Claim C2 does not hold of the code. \<^verbatim>\<open>getlist("cards", type=int)\<close> leaves out a value
  that does not parse instead of raising, so the request
  \<^verbatim>\<open>/dealer/hands?cards=abc&cards=5\<close> is read as the single size 5 and is dealt a hand of
  five cards.
\<close>

theorem multi_hand_drops_unparseable:
  "py_int ''abc'' = None
   \<and> hand_sizes_of \<lparr>path = ''/dealer/hands'', accept = Some ''application/json'',
        args = [(''cards'', ''abc''), (''cards'', ''5'')]\<rparr> = [5]
   \<and> fst (full_dispatch_request rot_random (seeded_platform ''42'' 0)
        \<lparr>path = ''/dealer/hands'', accept = Some ''application/json'',
          args = [(''cards'', ''abc''), (''cards'', ''5'')]\<rparr> (initial_state 0))
      = Inr (Hands_body [\<lparr>hand = 0, cards = map to_json (take 5 (rotate 2 all_cards))\<rparr>])"
proof -
  let ?R = rot_random
  let ?P = "seeded_platform ''42'' 0"
  let ?q = "\<lparr>path = ''/dealer/hands'', accept = Some ''application/json'',
        args = [(''cards'', ''abc''), (''cards'', ''5'')]\<rparr>"
  have p: "py_int ''abc'' = None"
    by (simp add: py_int_eval)
  have five: "py_int ''5'' = Some 5"
    by (simp add: py_int_eval)
  have c: "hand_sizes_of ?q = [5]"
    by (simp add: hand_sizes_of_def args_getlist_type_def args_getlist_def 
      p five)
  have "sublist ''json'' ''application/json''"
    by (simp add: sublist_code)
  then have pass: "check_json ?q = Inr None"
    by (simp add: check_json_def str_in_sublist)
  have route: "full_dispatch_request ?R ?P ?q (initial_state 0)
      = multi_hand ?R ?P ?q (initial_state 0)"
    using pass by (simp add: dispatch_hands)
  have ok: "sizes_ok (hand_sizes_of ?q)"
    by (simp add: c)
  have none: "deck (initial_state (0::nat)) = None"
    by (simp add: initial_state_def)
  have l: "length (fresh_order ?R ?P) = 52"
    by (simp add: fresh_order_rot all_cards_length)
  have "fst (multi_hand ?R ?P ?q (initial_state 0))
      = Inr (Hands_body [\<lparr>hand = 0, cards = map to_json (take 5 (fresh_order ?R ?P))\<rparr>])"
    using l by (simp add: multi_hand_deals [OF ok get_deck_None [OF none]] c Deck_deal_def)
  with p c route show ?thesis
    by (simp add: fresh_order_rot numeral_2_eq_2)
qed

lemma Deck_deal_short: "length (remaining d) < n \<Longrightarrow> Deck_deal n d = Inl DeckExhausted"
  by (simp add: Deck_deal_def)

lemma Deck_deal_fits:
  "n \<le> length (remaining d) \<Longrightarrow>
   Deck_deal n d = Inr (take n (remaining d), d\<lparr>remaining := drop n (remaining d)\<rparr>)"
  by (simp add: Deck_deal_def)

lemma Deck_deal_Inr:
  "Deck_deal n d = Inr (h, d') \<Longrightarrow>
   n \<le> length (remaining d) \<and> h = take n (remaining d) \<and> remaining d' = drop n (remaining d)"
  by (auto simp: Deck_deal_def split: if_splits)

lemma deal_calls_conserve:
  "deal_calls ns d0 = (hs, d) \<Longrightarrow> concat hs @ remaining d = remaining d0"
proof (induction ns arbitrary: d0 hs)
  case Nil
  then show ?case by simp
next
  case (Cons n ns)
  show ?case
  proof (cases "Deck_deal n d0")
    case (Inl e)
    with Cons.prems have "deal_calls ns d0 = (hs, d)" by simp
    then show ?thesis by (rule Cons.IH)
  next
    case (Inr r)
    obtain h d1 where r: "r = (h, d1)" by (cases r)
    obtain hs1 d2 where rest: "deal_calls ns d1 = (hs1, d2)" by (cases "deal_calls ns d1")
    from Cons.prems Inr r rest have eq: "hs = h # hs1" "d = d2" by simp_all
    from rest eq have "deal_calls ns d1 = (hs1, d)" by simp
    then have "concat hs1 @ remaining d = remaining d1" by (rule Cons.IH)
    moreover from Inr r have "h = take n (remaining d0)" "remaining d1 = drop n (remaining d0)"
      using Deck_deal_Inr [of n d0 h d1] by simp_all
    ultimately show ?thesis using eq by simp
  qed
qed

subsection \<open>The deck only shrinks\<close>

text \<open>
  Claim C9, on the deck modelled from the spec. Take a deck as built from a shuffle that
  permutes the full set, and any history of \<^verbatim>\<open>deal\<close> calls on it. Then the cards
  remaining and the cards dealt so far number 52 together, are pairwise distinct and are
  exactly the full set. A further call for more cards than remain fails with
  \<open>DeckExhausted\<close>; a call for \<open>n\<close> cards that do remain returns the first \<open>n\<close>
  remaining cards, which are distinct, belong to the full set, occur neither among the
  cards dealt before nor among those left, and lowers the remaining count by \<open>n\<close>.
\<close>

theorem deal_keeps_deck_invariants:
  assumes perm: "mset (fst (shuffle R g all_cards)) = mset all_cards"
    and calls: "deal_calls ns (fst (Deck R g)) = (hs, d)"
  shows "length (remaining d) + length (concat hs) = 52
    \<and> distinct (concat hs @ remaining d)
    \<and> set (concat hs @ remaining d) = set all_cards
    \<and> (length (remaining d) < n \<longrightarrow> Deck_deal n d = Inl DeckExhausted)
    \<and> (n \<le> length (remaining d) \<longrightarrow>
         (\<exists>h d'. Deck_deal n d = Inr (h, d') \<and> h = take n (remaining d)
            \<and> length h = n \<and> distinct h \<and> set h \<subseteq> set all_cards
            \<and> set h \<inter> set (concat hs) = {} \<and> set h \<inter> set (remaining d') = {}
            \<and> length (remaining d') + n = length (remaining d)))"
proof -
  let ?cs = "fst (shuffle R g all_cards)"
  have start: "remaining (fst (Deck R g)) = ?cs"
    by (simp add: Deck_def split: prod.splits)
  have whole: "concat hs @ remaining d = ?cs"
    using deal_calls_conserve [OF calls] start by simp
  have len: "length ?cs = 52"
    using mset_eq_length [OF perm] by (simp add: all_cards_length)
  have dist: "distinct ?cs"
    using mset_eq_imp_distinct_iff [OF perm] by (simp add: all_cards_distinct)
  have elems: "set ?cs = set all_cards"
    using perm by (rule mset_eq_setD)
  have count: "length (remaining d) + length (concat hs) = 52"
  proof -
    have "length (concat hs @ remaining d) = 52" using whole len by simp
    then show ?thesis by simp
  qed
  have d1: "distinct (concat hs @ remaining d)" using whole dist by simp
  have s1: "set (concat hs @ remaining d) = set all_cards" using whole elems by simp
  have short: "length (remaining d) < n \<longrightarrow> Deck_deal n d = Inl DeckExhausted"
    by (simp add: Deck_deal_short)
  have fits: "n \<le> length (remaining d) \<longrightarrow>
         (\<exists>h d'. Deck_deal n d = Inr (h, d') \<and> h = take n (remaining d)
            \<and> length h = n \<and> distinct h \<and> set h \<subseteq> set all_cards
            \<and> set h \<inter> set (concat hs) = {} \<and> set h \<inter> set (remaining d') = {}
            \<and> length (remaining d') + n = length (remaining d))"
  proof
    assume le: "n \<le> length (remaining d)"
    let ?h = "take n (remaining d)"
    let ?d' = "d\<lparr>remaining := drop n (remaining d)\<rparr>"
    have split: "remaining d = ?h @ remaining ?d'" by simp
    have dr: "distinct (remaining d)" using d1 by simp
    have a: "Deck_deal n d = Inr (?h, ?d')" using le by (rule Deck_deal_fits)
    have b: "length ?h = n" using le by simp
    have c: "distinct ?h" using dr by simp
    have e: "set ?h \<subseteq> set all_cards"
    proof -
      have "set ?h \<subseteq> set (remaining d)" by (rule set_take_subset)
      also have "\<dots> \<subseteq> set (concat hs @ remaining d)" by auto
      finally show ?thesis using s1 by simp
    qed
    have f: "set ?h \<inter> set (concat hs) = {}"
    proof -
      have "set (remaining d) \<inter> set (concat hs) = {}" using d1 by auto
      moreover have "set ?h \<subseteq> set (remaining d)" by (rule set_take_subset)
      ultimately show ?thesis by blast
    qed
    have g: "set ?h \<inter> set (remaining ?d') = {}"
    proof -
      have "distinct (?h @ remaining ?d')" using dr by simp
      then show ?thesis by (simp only: distinct_append)
    qed
    have i: "length (remaining ?d') + n = length (remaining d)" using le by simp
    from a b c e f g i show "\<exists>h d'. Deck_deal n d = Inr (h, d') \<and> h = take n (remaining d)
            \<and> length h = n \<and> distinct h \<and> set h \<subseteq> set all_cards
            \<and> set h \<inter> set (concat hs) = {} \<and> set h \<inter> set (remaining d') = {}
            \<and> length (remaining d') + n = length (remaining d)"
      by blast
  qed
  show ?thesis
    by (rule conjI [OF count conjI [OF d1 conjI [OF s1 conjI [OF short fits]]]])
qed


theorem deal_keeps_deck_invariants_witness:
  "length (remaining (snd (deal_calls [5, 60, 3] (fst (Deck rot_random 2)))))
     + length (concat (fst (deal_calls [5, 60, 3] (fst (Deck rot_random 2))))) = 52
   \<and> distinct (concat (fst (deal_calls [5, 60, 3] (fst (Deck rot_random 2))))
        @ remaining (snd (deal_calls [5, 60, 3] (fst (Deck rot_random 2)))))
   \<and> Deck_deal 60 (fst (Deck rot_random 2)) = Inl DeckExhausted"
proof -
  have perm: "mset (fst (shuffle rot_random 2 all_cards)) = mset all_cards"
    by (simp add: rot_random_def mset_rotate_eq)
  have calls: "deal_calls [5, 60, 3] (fst (Deck rot_random 2))
      = (fst (deal_calls [5, 60, 3] (fst (Deck rot_random 2))),
         snd (deal_calls [5, 60, 3] (fst (Deck rot_random 2))))"
    by simp
  have none: "deal_calls [] (fst (Deck rot_random 2)) = ([], fst (Deck rot_random 2))"
    by simp
  note T = deal_keeps_deck_invariants [OF perm calls]
  note U = deal_keeps_deck_invariants [OF perm none, where n = 60]
  have l: "length (remaining (fst (Deck rot_random 2))) = 52"
    by (simp add: Deck_def rot_random_def all_cards_length)
  have short: "Deck_deal 60 (fst (Deck rot_random 2)) = Inl DeckExhausted"
    using U [THEN conjunct2, THEN conjunct2, THEN conjunct2, THEN conjunct1] l by simp
  from T [THEN conjunct1] T [THEN conjunct2, THEN conjunct1] short show ?thesis
    by (intro conjI)
qed

lemma get_deck_within:
  assumes "deck_within (fresh_order R P) st" and "get_deck R P st = (d, st1)"
  shows "suffix (remaining d) (fresh_order R P) \<and> deck st1 = Some d"
proof (cases "deck st")
  case None
  with assms(2) show ?thesis by (auto simp: get_deck_None)
next
  case (Some d0)
  with assms show ?thesis by (auto simp: get_deck_Some)
qed

lemma Deck_deal_suffix: "Deck_deal n d = Inr (h, d') \<Longrightarrow> suffix (remaining d') (remaining d)"
  using Deck_deal_Inr [of n d h d'] by (simp add: suffix_drop)

lemma deal_each_suffix: "deal_each ns d = (x, d') \<Longrightarrow> suffix (remaining d') (remaining d)"
proof (induction ns arbitrary: d x d')
  case Nil
  then show ?case by simp
next
  case (Cons n ns)
  show ?case
  proof (cases "Deck_deal (nat n) d")
    case (Inl e)
    with Cons.prems show ?thesis by simp
  next
    case (Inr r)
    obtain h d1 where r: "r = (h, d1)" by (cases r)
    obtain y d2 where rest: "deal_each ns d1 = (y, d2)" by (cases "deal_each ns d1")
    from Cons.prems Inr r rest have "d' = d2" by (cases y) simp_all
    moreover from rest have "suffix (remaining d2) (remaining d1)" by (rule Cons.IH)
    moreover from Inr r have "suffix (remaining d1) (remaining d)"
      by (simp add: Deck_deal_suffix)
    ultimately show ?thesis by (blast intro: suffix_order.trans)
  qed
qed

lemma deal_within:
  assumes "deck_within F st" and F: "F = fresh_order R P"
  shows "deck_within F (snd (deal R P req st))"
proof -
  obtain d st1 where g: "get_deck R P st = (d, st1)" by (cases "get_deck R P st")
  have "deck_within (fresh_order R P) st" using assms by simp
  from get_deck_within [OF this g]
  have d: "suffix (remaining d) F" "deck st1 = Some d" using F by simp_all
  show ?thesis
  proof (cases "hand_size_of req")
    case None
    with assms(1) show ?thesis by (simp add: deal_reject_parse)
  next
    case (Some n)
    show ?thesis
    proof (cases "1 \<le> n \<and> n < 53")
      case False
      then have "n < 1 \<or> 53 \<le> n" by arith
      with Some have "deal R P req st = (Inl (Abort 400), st)" by (rule deal_reject_range)
      with assms(1) show ?thesis by simp
    next
      case True
      show ?thesis
      proof (cases "Deck_deal (nat n) d")
        case (Inl e)
        with Some True g d show ?thesis by (simp add: deal_def)
      next
        case (Inr r)
        obtain h d1 where r: "r = (h, d1)" by (cases r)
        with Inr have "suffix (remaining d1) (remaining d)" by (simp add: Deck_deal_suffix)
        with d(1) have "suffix (remaining d1) F" by (blast intro: suffix_order.trans)
        with Some True g Inr r show ?thesis by (simp add: deal_def)
      qed
    qed
  qed
qed

lemma multi_hand_within:
  assumes "deck_within F st" and F: "F = fresh_order R P"
  shows "deck_within F (snd (multi_hand R P req st))"
proof (cases "sizes_ok (hand_sizes_of req)")
  case False
  then have "multi_hand R P req st = (Inl (Abort 400), st)" by (rule multi_hand_reject)
  with assms(1) show ?thesis by simp
next
  case True
  obtain d st1 where g: "get_deck R P st = (d, st1)" by (cases "get_deck R P st")
  have "deck_within (fresh_order R P) st" using assms by simp
  from get_deck_within [OF this g]
  have d: "suffix (remaining d) F" using F by simp
  obtain x d' where r: "deal_each (hand_sizes_of req) d = (x, d')"
    by (cases "deal_each (hand_sizes_of req) d")
  then have "suffix (remaining d') (remaining d)" by (rule deal_each_suffix)
  with d have "suffix (remaining d') F" by (blast intro: suffix_order.trans)
  with r show ?thesis
    by (cases x) (simp_all add: multi_hand_deals [OF True g])
qed

lemma dispatch_within:
  assumes "deck_within F st" and F: "F = fresh_order R P"
  shows "deck_within F (snd (full_dispatch_request R P req st))"
proof (cases "check_json req = Inr None")
  case False
  then have "full_dispatch_request R P req st = (Inl (Abort 400), st)"
    by (rule dispatch_stopped)
  with assms(1) show ?thesis by simp
next
  case True
  then have "full_dispatch_request R P req st = dispatch_request R P req st"
    by (simp add: full_dispatch_request_def)
  moreover have "deck_within F (snd (dispatch_request R P req st))"
    using assms deal_within [OF assms, of req] multi_hand_within [OF assms, of req]
    by (simp add: dispatch_request_def)
  ultimately show ?thesis by simp
qed

lemma serve_within:
  "deck_within (fresh_order R P) st \<Longrightarrow> deck_within (fresh_order R P) (snd (serve R P reqs st))"
proof (induction reqs arbitrary: st)
  case Nil
  then show ?case by simp
next
  case (Cons req reqs)
  obtain r st1 where step: "full_dispatch_request R P req st = (r, st1)"
    by (cases "full_dispatch_request R P req st")
  have "deck_within (fresh_order R P) (snd (full_dispatch_request R P req st))"
    using Cons.prems by (rule dispatch_within) simp
  with step have "deck_within (fresh_order R P) st1" by simp
  then have "deck_within (fresh_order R P) (snd (serve R P reqs st1))" by (rule Cons.IH)
  with step show ?case by (simp split: prod.splits)
qed

lemma deal_each_short:
  "\<forall>n \<in> set ns. 0 \<le> n \<Longrightarrow> int (length (remaining d)) < sum_list ns \<Longrightarrow>
   fst (deal_each ns d) = Inl DeckExhausted"
proof (induction ns arbitrary: d)
  case Nil
  then show ?case by simp
next
  case (Cons n ns)
  show ?case
  proof (cases "length (remaining d) < nat n")
    case True
    then show ?thesis by (simp add: Deck_deal_short)
  next
    case False
    let ?d1 = "d\<lparr>remaining := drop (nat n) (remaining d)\<rparr>"
    have first: "Deck_deal (nat n) d = Inr (take (nat n) (remaining d), ?d1)"
      using False by (simp add: Deck_deal_fits)
    have "int (length (remaining ?d1)) < sum_list ns"
      using Cons.prems False by simp
    with Cons.IH [of ?d1] Cons.prems(1)
    have short: "fst (deal_each ns ?d1) = Inl DeckExhausted" by simp
    obtain x d2 where rest: "deal_each ns ?d1 = (x, d2)" by (cases "deal_each ns ?d1")
    with short have "x = Inl DeckExhausted" by simp
    with first rest show ?thesis by simp
  qed
qed

lemma concat_disjoint:
  "distinct (concat hs) \<Longrightarrow> i < length hs \<Longrightarrow> j < length hs \<Longrightarrow> i \<noteq> j \<Longrightarrow>
   set (hs ! i) \<inter> set (hs ! j) = {}"
proof (induction hs arbitrary: i j)
  case Nil
  then show ?case by simp
next
  case (Cons h hs)
  have apart: "set h \<inter> set (concat hs) = {}" and rest: "distinct (concat hs)"
    using Cons.prems(1) by simp_all
  have inside: "\<And>k. k < length hs \<Longrightarrow> set (hs ! k) \<subseteq> set (concat hs)"
    using nth_mem [of _ hs] by fastforce
  show ?case
  proof (cases i)
    case 0
    with Cons.prems obtain j' where j: "j = Suc j'" "j' < length hs"
      by (cases j) simp_all
    with 0 apart inside [of j'] show ?thesis by auto
  next
    case (Suc i')
    show ?thesis
    proof (cases j)
      case 0
      with Suc Cons.prems apart inside [of i'] show ?thesis by auto
    next
      case (Suc j')
      with \<open>i = Suc i'\<close> Cons.prems Cons.IH [OF rest, of i' j'] show ?thesis by simp
    qed
  qed
qed

lemma to_json_inj: "inj to_json"
proof (rule injI)
  fix c c' :: card
  assume "to_json c = to_json c'"
  then show "c = c'" by (cases c, cases c') (simp add: to_json_def)
qed

lemma body_nth:
  "i < length hs \<Longrightarrow>
   map (\<lambda>(i, h). \<lparr>hand = i, cards = map to_json h\<rparr>) (List.enumerate 0 hs) ! i
     = \<lparr>hand = i, cards = map to_json (hs ! i)\<rparr>"
  by (simp add: nth_enumerate_eq)

lemma serve_reachable_within:
  "deck_within (fresh_order R P) (snd (serve R P reqs (initial_state g0)))"
  by (rule serve_within) (simp add: initial_state_def)

subsection \<open>Several hands from one deck\<close>

text \<open>
  Claim C8, amended. Take a state that a process reaches by serving requests, the fresh
  deck being a permutation of the full set, and a request whose sizes pass the validation
  of \<^verbatim>\<open>multi_hand\<close>. When the deck holds at least as many cards as the sizes add up to,
  the view deals once for each size, in order, from the one deck: the hands, one after
  the other and followed by what is left, make up the deck as it was; hand \<open>i\<close> has the
  length of size \<open>i\<close>; entry \<open>i\<close> of the answer carries the number \<open>i\<close> (counted from
  0) and the cards of hand \<open>i\<close>; and two different hands share no card. When the deck
  holds fewer cards, the answer is the uncaught \<open>DeckExhausted\<close>. The wire form of a card
  determines the card.
\<close>

theorem multi_hand_deals_in_order:
  assumes perm: "mset (fresh_order R P) = mset all_cards"
    and reach: "st = snd (serve R P reqs (initial_state g0))"
    and ok: "sizes_ok (hand_sizes_of req)"
    and g: "get_deck R P st = (d, st1)"
  shows "(sum_list (hand_sizes_of req) \<le> int (length (remaining d)) \<longrightarrow>
      (\<exists>hs d' body. deal_each (hand_sizes_of req) d = (Inr hs, d')
         \<and> multi_hand R P req st = (Inr (Hands_body body), st1\<lparr>deck := Some d'\<rparr>)
         \<and> length body = length (hand_sizes_of req)
         \<and> length hs = length (hand_sizes_of req)
         \<and> (\<forall>i < length hs. hand (body ! i) = i \<and> cards (body ! i) = map to_json (hs ! i)
               \<and> length (hs ! i) = nat (hand_sizes_of req ! i))
         \<and> concat hs @ remaining d' = remaining d
         \<and> (\<forall>i < length hs. \<forall>j < length hs. i \<noteq> j \<longrightarrow> set (hs ! i) \<inter> set (hs ! j) = {})))
    \<and> (int (length (remaining d)) < sum_list (hand_sizes_of req) \<longrightarrow>
         fst (multi_hand R P req st) = Inl DeckExhausted)
    \<and> inj to_json"
proof -
  let ?ns = "hand_sizes_of req"
  have within: "deck_within (fresh_order R P) st"
    unfolding reach by (rule serve_reachable_within)
  have "suffix (remaining d) (fresh_order R P)"
    using get_deck_within [OF within g] by simp
  moreover have "distinct (fresh_order R P)"
    using mset_eq_imp_distinct_iff [OF perm] by (simp add: all_cards_distinct)
  ultimately have dist: "distinct (remaining d)"
    by (auto simp: suffix_def)
  have enough: "sum_list ?ns \<le> int (length (remaining d)) \<longrightarrow>
      (\<exists>hs d' body. deal_each ?ns d = (Inr hs, d')
         \<and> multi_hand R P req st = (Inr (Hands_body body), st1\<lparr>deck := Some d'\<rparr>)
         \<and> length body = length ?ns
         \<and> length hs = length ?ns
         \<and> (\<forall>i < length hs. hand (body ! i) = i \<and> cards (body ! i) = map to_json (hs ! i)
               \<and> length (hs ! i) = nat (?ns ! i))
         \<and> concat hs @ remaining d' = remaining d
         \<and> (\<forall>i < length hs. \<forall>j < length hs. i \<noteq> j \<longrightarrow> set (hs ! i) \<inter> set (hs ! j) = {}))"
  proof
    assume fits: "sum_list ?ns \<le> int (length (remaining d))"
    from multi_hand_enough [OF ok g fits]
    obtain hs d' where r: "deal_each ?ns d = (Inr hs, d')" "map length hs = map nat ?ns"
      "concat hs @ remaining d' = remaining d"
      "multi_hand R P req st =
         (Inr (Hands_body
            (map (\<lambda>(i, h). \<lparr>hand = i, cards = map to_json h\<rparr>) (List.enumerate 0 hs))),
          st1\<lparr>deck := Some d'\<rparr>)"
      by blast
    let ?body = "map (\<lambda>(i, h). \<lparr>hand = i, cards = map to_json h\<rparr>) (List.enumerate 0 hs)"
    have lh: "length hs = length ?ns"
      using r(2) by (rule map_eq_imp_length_eq)
    have lb: "length ?body = length ?ns"
      using lh by simp
    have each: "\<forall>i < length hs. hand (?body ! i) = i \<and> cards (?body ! i) = map to_json (hs ! i)
               \<and> length (hs ! i) = nat (?ns ! i)"
    proof (intro allI impI)
      fix i assume i: "i < length hs"
      have "map length hs ! i = map nat ?ns ! i" using r(2) by simp
      then have "length (hs ! i) = nat (?ns ! i)" using i lh by simp
      moreover have "?body ! i = \<lparr>hand = i, cards = map to_json (hs ! i)\<rparr>"
        using i by (rule body_nth)
      ultimately show "hand (?body ! i) = i \<and> cards (?body ! i) = map to_json (hs ! i)
               \<and> length (hs ! i) = nat (?ns ! i)"
        by simp
    qed
    have "distinct (concat hs)" using dist r(3) [symmetric] by simp
    then have apart: "\<forall>i < length hs. \<forall>j < length hs. i \<noteq> j \<longrightarrow>
        set (hs ! i) \<inter> set (hs ! j) = {}"
      by (simp add: concat_disjoint)
    from r(1) r(4) lb lh each r(3) apart
    show "\<exists>hs d' body. deal_each ?ns d = (Inr hs, d')
         \<and> multi_hand R P req st = (Inr (Hands_body body), st1\<lparr>deck := Some d'\<rparr>)
         \<and> length body = length ?ns
         \<and> length hs = length ?ns
         \<and> (\<forall>i < length hs. hand (body ! i) = i \<and> cards (body ! i) = map to_json (hs ! i)
               \<and> length (hs ! i) = nat (?ns ! i))
         \<and> concat hs @ remaining d' = remaining d
         \<and> (\<forall>i < length hs. \<forall>j < length hs. i \<noteq> j \<longrightarrow> set (hs ! i) \<inter> set (hs ! j) = {})"
      by blast
  qed
  have short: "int (length (remaining d)) < sum_list ?ns \<longrightarrow>
         fst (multi_hand R P req st) = Inl DeckExhausted"
  proof
    assume "int (length (remaining d)) < sum_list ?ns"
    with deal_each_short [OF sizes_ok_nonneg [OF ok]]
    have e: "fst (deal_each ?ns d) = Inl DeckExhausted" by simp
    obtain x d2 where r: "deal_each ?ns d = (x, d2)" by (cases "deal_each ?ns d")
    with e have "x = Inl DeckExhausted" by simp
    with r show "fst (multi_hand R P req st) = Inl DeckExhausted"
      by (simp add: multi_hand_deals [OF ok g])
  qed
  show ?thesis
    by (rule conjI [OF enough conjI [OF short to_json_inj]])
qed


lemma deal_whole_fresh_deck:
  assumes "mset (fresh_order R P) = mset all_cards"
  shows "deck (snd (serve R P
      [\<lparr>path = ''/dealer/hand'', accept = Some ''application/json'', args = [(''cards'', ''52'')]\<rparr>]
      (initial_state g0))) = Some \<lparr>remaining = []\<rparr>"
proof -
  let ?r = "\<lparr>path = ''/dealer/hand'', accept = Some ''application/json'',
    args = [(''cards'', ''52'')]\<rparr>"
  have l: "length (fresh_order R P) = 52" using assms by (rule fresh_length)
  have "sublist ''json'' ''application/json''"
    by (simp add: sublist_code)
  then have pass: "check_json ?r = Inr None"
    by (simp add: check_json_def str_in_sublist)
  have size: "hand_size_of ?r = Some 52"
    by (simp add: hand_size_of_def args_get_def py_int_eval)
  have none: "deck (initial_state g0) = None"
    by (simp add: initial_state_def)
  have "deck (snd (deal R P ?r (initial_state g0))) = Some \<lparr>remaining = []\<rparr>"
    using l by (simp add: deal_def size get_deck_None [OF none] Deck_deal_def)
  then show ?thesis
    using pass by (simp add: dispatch_hand case_prod_beta)
qed

text \<open>
  Claim C8, as stated, fails when the deck has run low: after a first request has taken
  all 52 cards, a request for hands of 2, 1, 1 and 1 cards passes the gate and the
  validation, and ends in \<open>DeckExhausted\<close> instead of a list of hands.
\<close>

theorem multi_hand_exhausted_counterexample:
  "sizes_ok (hand_sizes_of
        \<lparr>path = ''/dealer/hands'', accept = Some ''application/json'',
          args = [(''cards'', ''2''), (''cards'', ''1''), (''cards'', ''1''), (''cards'', ''1'')]\<rparr>)
   \<and> check_json
        \<lparr>path = ''/dealer/hands'', accept = Some ''application/json'',
          args = [(''cards'', ''2''), (''cards'', ''1''), (''cards'', ''1''), (''cards'', ''1'')]\<rparr> = Inr None
   \<and> fst (full_dispatch_request rot_random (seeded_platform ''42'' 0)
        \<lparr>path = ''/dealer/hands'', accept = Some ''application/json'',
          args = [(''cards'', ''2''), (''cards'', ''1''), (''cards'', ''1''), (''cards'', ''1'')]\<rparr>
        (snd (serve rot_random (seeded_platform ''42'' 0)
          [\<lparr>path = ''/dealer/hand'', accept = Some ''application/json'',
             args = [(''cards'', ''52'')]\<rparr>] (initial_state 0))))
      = Inl DeckExhausted"
proof -
  let ?R = rot_random
  let ?P = "seeded_platform ''42'' 0"
  let ?q = "\<lparr>path = ''/dealer/hands'', accept = Some ''application/json'',
          args = [(''cards'', ''2''), (''cards'', ''1''), (''cards'', ''1''), (''cards'', ''1'')]\<rparr>"
  let ?r52 = "\<lparr>path = ''/dealer/hand'', accept = Some ''application/json'',
             args = [(''cards'', ''52'')]\<rparr>"
  let ?st = "snd (serve ?R ?P [?r52] (initial_state 0))"
  have perm: "mset (fresh_order ?R ?P) = mset all_cards"
    by (simp only: fresh_order_rot mset_rotate_eq)
  have sizes: "hand_sizes_of ?q = [2, 1, 1, 1]"
    by (simp add: hand_sizes_of_def args_getlist_type_def args_getlist_def py_int_eval)
  have ok: "sizes_ok (hand_sizes_of ?q)"
    by (simp add: sizes)
  have "sublist ''json'' ''application/json''"
    by (simp add: sublist_code)
  then have pass: "check_json ?q = Inr None"
    by (simp add: check_json_def str_in_sublist)
  have empty: "deck ?st = Some \<lparr>remaining = []\<rparr>"
    using perm by (rule deal_whole_fresh_deck)
  have g: "get_deck ?R ?P ?st = (\<lparr>remaining = []\<rparr>, ?st)"
    using empty by (rule get_deck_Some)
  have "int (length (remaining \<lparr>remaining = []\<rparr>)) < sum_list (hand_sizes_of ?q)"
    by (simp add: sizes)
  with deal_each_short [OF sizes_ok_nonneg [OF ok]]
  have e: "fst (deal_each (hand_sizes_of ?q) \<lparr>remaining = []\<rparr>) = Inl DeckExhausted"
    by blast
  obtain x d2 where r: "deal_each (hand_sizes_of ?q) \<lparr>remaining = []\<rparr> = (x, d2)"
    by (cases "deal_each (hand_sizes_of ?q) \<lparr>remaining = []\<rparr>")
  with e have x: "x = Inl DeckExhausted" by simp
  have view: "fst (multi_hand ?R ?P ?q ?st) = Inl DeckExhausted"
    by (simp only: multi_hand_deals [OF ok g] r x sum.case prod.case fst_conv)
  have "full_dispatch_request ?R ?P ?q ?st = multi_hand ?R ?P ?q ?st"
    by (rule dispatch_hands [OF pass]) simp
  with view have whole: "fst (full_dispatch_request ?R ?P ?q ?st) = Inl DeckExhausted"
    by (simp only:)
  show ?thesis
    by (rule conjI [OF ok conjI [OF pass whole]])
qed

theorem multi_hand_deals_in_order_witness:
  "hand_sizes_of
        \<lparr>path = ''/dealer/hands'', accept = Some ''application/json'',
          args = [(''cards'', ''2''), (''cards'', ''1''), (''cards'', ''1''), (''cards'', ''1'')]\<rparr> = [2, 1, 1, 1]
   \<and> (\<exists>hs d' body.
      deal_each (hand_sizes_of
        \<lparr>path = ''/dealer/hands'', accept = Some ''application/json'',
          args = [(''cards'', ''2''), (''cards'', ''1''), (''cards'', ''1''), (''cards'', ''1'')]\<rparr>) \<lparr>remaining = fresh_order rot_random (seeded_platform ''42'' 0)\<rparr> = (Inr hs, d')
      \<and> multi_hand rot_random (seeded_platform ''42'' 0)
        \<lparr>path = ''/dealer/hands'', accept = Some ''application/json'',
          args = [(''cards'', ''2''), (''cards'', ''1''), (''cards'', ''1''), (''cards'', ''1'')]\<rparr>
        (initial_state 0)
      = (Inr (Hands_body body),
         snd (get_deck rot_random (seeded_platform ''42'' 0) (initial_state 0))\<lparr>deck := Some d'\<rparr>)
      \<and> length body = length (hand_sizes_of
        \<lparr>path = ''/dealer/hands'', accept = Some ''application/json'',
          args = [(''cards'', ''2''), (''cards'', ''1''), (''cards'', ''1''), (''cards'', ''1'')]\<rparr>)
      \<and> length hs = length (hand_sizes_of
        \<lparr>path = ''/dealer/hands'', accept = Some ''application/json'',
          args = [(''cards'', ''2''), (''cards'', ''1''), (''cards'', ''1''), (''cards'', ''1'')]\<rparr>)
      \<and> (\<forall>i < length hs. hand (body ! i) = i \<and> cards (body ! i) = map to_json (hs ! i)
            \<and> length (hs ! i) = nat ((hand_sizes_of
        \<lparr>path = ''/dealer/hands'', accept = Some ''application/json'',
          args = [(''cards'', ''2''), (''cards'', ''1''), (''cards'', ''1''), (''cards'', ''1'')]\<rparr>) ! i))
      \<and> concat hs @ remaining d' = remaining \<lparr>remaining = fresh_order rot_random (seeded_platform ''42'' 0)\<rparr>
      \<and> (\<forall>i < length hs. \<forall>j < length hs. i \<noteq> j \<longrightarrow> set (hs ! i) \<inter> set (hs ! j) = {}))
   \<and> fst (multi_hand rot_random (seeded_platform ''42'' 0)
        \<lparr>path = ''/dealer/hands'', accept = Some ''application/json'',
          args = [(''cards'', ''2''), (''cards'', ''1''), (''cards'', ''1''), (''cards'', ''1'')]\<rparr>
        (snd (serve rot_random (seeded_platform ''42'' 0)
          [\<lparr>path = ''/dealer/hand'', accept = Some ''application/json'',
             args = [(''cards'', ''52'')]\<rparr>] (initial_state 0))))
      = Inl DeckExhausted"
proof -
  let ?R = rot_random
  let ?P = "seeded_platform ''42'' 0"
  let ?q = "\<lparr>path = ''/dealer/hands'', accept = Some ''application/json'',
          args = [(''cards'', ''2''), (''cards'', ''1''), (''cards'', ''1''), (''cards'', ''1'')]\<rparr>"
  let ?r52 = "\<lparr>path = ''/dealer/hand'', accept = Some ''application/json'',
             args = [(''cards'', ''52'')]\<rparr>"
  let ?st = "snd (serve ?R ?P [?r52] (initial_state 0))"
  have perm: "mset (fresh_order ?R ?P) = mset all_cards"
    by (simp only: fresh_order_rot mset_rotate_eq)
  have sizes: "hand_sizes_of ?q = [2, 1, 1, 1]"
    by (simp add: hand_sizes_of_def args_getlist_type_def args_getlist_def py_int_eval)
  have ok: "sizes_ok (hand_sizes_of ?q)"
    by (simp add: sizes)
  have start: "initial_state (0::nat) = snd (serve ?R ?P [] (initial_state 0))"
    by simp
  have none: "deck (initial_state (0::nat)) = None"
    by (simp add: initial_state_def)
  have g: "get_deck ?R ?P (initial_state 0)
      = (\<lparr>remaining = fresh_order ?R ?P\<rparr>, snd (get_deck ?R ?P (initial_state 0)))"
    by (simp add: get_deck_None [OF none])
  have l: "length (fresh_order ?R ?P) = 52" using perm by (rule fresh_length)
  have fits: "sum_list (hand_sizes_of ?q)
      \<le> int (length (remaining \<lparr>remaining = fresh_order ?R ?P\<rparr>))"
    using l by (simp add: sizes)
  note first = multi_hand_deals_in_order [OF perm start ok g, THEN conjunct1, THEN mp, OF fits]
  have empty: "deck ?st = Some \<lparr>remaining = []\<rparr>"
    using perm by (rule deal_whole_fresh_deck)
  have g2: "get_deck ?R ?P ?st = (\<lparr>remaining = []\<rparr>, ?st)"
    using empty by (rule get_deck_Some)
  have short: "int (length (remaining \<lparr>remaining = []\<rparr>)) < sum_list (hand_sizes_of ?q)"
    by (simp add: sizes)
  note second = multi_hand_deals_in_order [OF perm refl ok g2, THEN conjunct2, THEN conjunct1,
    THEN mp, OF short]
  show ?thesis
    by (rule conjI [OF sizes conjI [OF first second]])
qed

lemma deal_shrinks:
  assumes "deck st = Some d"
  shows "\<exists>d'. deck (snd (deal R P req st)) = Some d' \<and> suffix (remaining d') (remaining d)"
proof -
  have g: "get_deck R P st = (d, st)" using assms by (rule get_deck_Some)
  show ?thesis
  proof (cases "hand_size_of req")
    case None
    with assms show ?thesis by (simp add: deal_reject_parse)
  next
    case (Some n)
    show ?thesis
    proof (cases "1 \<le> n \<and> n < 53")
      case False
      then have "n < 1 \<or> 53 \<le> n" by arith
      with Some have "deal R P req st = (Inl (Abort 400), st)" by (rule deal_reject_range)
      with assms show ?thesis by simp
    next
      case True
      show ?thesis
      proof (cases "Deck_deal (nat n) d")
        case (Inl e)
        with Some True g assms show ?thesis by (simp add: deal_def)
      next
        case (Inr r)
        obtain h d1 where r: "r = (h, d1)" by (cases r)
        with Inr have "suffix (remaining d1) (remaining d)" by (simp add: Deck_deal_suffix)
        with Some True g Inr r show ?thesis by (simp add: deal_def)
      qed
    qed
  qed
qed

lemma multi_hand_shrinks:
  assumes "deck st = Some d"
  shows "\<exists>d'. deck (snd (multi_hand R P req st)) = Some d'
    \<and> suffix (remaining d') (remaining d)"
proof (cases "sizes_ok (hand_sizes_of req)")
  case False
  then have "multi_hand R P req st = (Inl (Abort 400), st)" by (rule multi_hand_reject)
  with assms show ?thesis by simp
next
  case True
  have g: "get_deck R P st = (d, st)" using assms by (rule get_deck_Some)
  obtain x d' where r: "deal_each (hand_sizes_of req) d = (x, d')"
    by (cases "deal_each (hand_sizes_of req) d")
  then have "suffix (remaining d') (remaining d)" by (rule deal_each_suffix)
  with r show ?thesis
    by (cases x) (simp_all add: multi_hand_deals [OF True g])
qed

lemma dispatch_shrinks:
  assumes "deck st = Some d"
  shows "\<exists>d'. deck (snd (full_dispatch_request R P req st)) = Some d'
    \<and> suffix (remaining d') (remaining d)"
proof (cases "check_json req = Inr None")
  case False
  then have "full_dispatch_request R P req st = (Inl (Abort 400), st)"
    by (rule dispatch_stopped)
  with assms show ?thesis by simp
next
  case True
  then have "full_dispatch_request R P req st = dispatch_request R P req st"
    by (simp add: full_dispatch_request_def)
  moreover have "\<exists>d'. deck (snd (dispatch_request R P req st)) = Some d'
    \<and> suffix (remaining d') (remaining d)"
    using assms deal_shrinks [OF assms, of R P req] multi_hand_shrinks [OF assms, of R P req]
    by (simp add: dispatch_request_def)
  ultimately show ?thesis by simp
qed

subsection \<open>One deck for the life of the process\<close>

text \<open>
  Claim C7. Once a deck is stored, \<^verbatim>\<open>get_deck\<close> returns it and leaves the whole state,
  generator included, as it is, whatever the environment says by then; after any call a
  deck is stored, so a second call returns what the first returned. Only a call on a
  state with no deck reads \<^verbatim>\<open>DEAL_APP_SEED\<close>, seeds the generator and builds the deck.
  In every state a process reaches, the deck is what is left of the order fixed at
  construction, and serving a request turns a stored deck into one that is what is left
  of it: the deck is not rebuilt or reordered, it only shrinks.
\<close>

theorem get_deck_once:
  "(deck st = Some d \<longrightarrow> get_deck R P' st = (d, st))
   \<and> deck (snd (get_deck R P st)) = Some (fst (get_deck R P st))
   \<and> get_deck R P' (snd (get_deck R P st)) = get_deck R P st
   \<and> (deck st = None \<longrightarrow>
        get_deck R P st =
          (\<lparr>remaining = fresh_order R P\<rparr>,
           st\<lparr>deck := Some \<lparr>remaining = fresh_order R P\<rparr>,
              rng := snd (shuffle R (random_seed R P (environ P ''DEAL_APP_SEED''))
                all_cards)\<rparr>))
   \<and> deck_within (fresh_order R P) (snd (serve R P reqs (initial_state g0)))
   \<and> (deck st = Some d \<longrightarrow>
        (\<exists>d'. deck (snd (full_dispatch_request R P' req st)) = Some d'
           \<and> suffix (remaining d') (remaining d)))"
proof -
  have later: "deck st = Some d \<longrightarrow> get_deck R P' st = (d, st)"
    by (simp add: get_deck_Some)
  have stored: "deck (snd (get_deck R P st)) = Some (fst (get_deck R P st))"
    by (cases "deck st") (simp_all add: get_deck_None get_deck_Some)
  have again: "get_deck R P' (snd (get_deck R P st)) = get_deck R P st"
  proof -
    have "get_deck R P' (snd (get_deck R P st))
        = (fst (get_deck R P st), snd (get_deck R P st))"
      using stored by (rule get_deck_Some)
    then show ?thesis by simp
  qed
  have first: "deck st = None \<longrightarrow>
        get_deck R P st =
          (\<lparr>remaining = fresh_order R P\<rparr>,
           st\<lparr>deck := Some \<lparr>remaining = fresh_order R P\<rparr>,
              rng := snd (shuffle R (random_seed R P (environ P ''DEAL_APP_SEED''))
                all_cards)\<rparr>)"
    by (simp add: get_deck_None)
  have fixed: "deck_within (fresh_order R P) (snd (serve R P reqs (initial_state g0)))"
    by (rule serve_reachable_within)
  have shrinks: "deck st = Some d \<longrightarrow>
        (\<exists>d'. deck (snd (full_dispatch_request R P' req st)) = Some d'
           \<and> suffix (remaining d') (remaining d))"
    using dispatch_shrinks [of st d R P' req] by blast
  show ?thesis
    by (rule conjI [OF later conjI [OF stored conjI [OF again conjI [OF first
      conjI [OF fixed shrinks]]]]])
qed

lemma fresh_order_seeded:
  "environ P1 ''DEAL_APP_SEED'' = Some s \<Longrightarrow> environ P2 ''DEAL_APP_SEED'' = Some s \<Longrightarrow>
   fresh_order R P1 = fresh_order R P2"
  by (simp add: fresh_order_def random_seed_def)

lemma get_deck_rel:
  assumes "deck st1 = deck st2" and "fresh_order R P1 = fresh_order R P2"
    and "get_deck R P1 st1 = (d1, a)" and "get_deck R P2 st2 = (d2, b)"
  shows "d1 = d2 \<and> deck a = deck b"
proof (cases "deck st1")
  case None
  then have n2: "deck st2 = None" using assms(1) by simp
  from assms(3) have "d1 = \<lparr>remaining = fresh_order R P1\<rparr>" "deck a = Some d1"
    by (auto simp: get_deck_None [OF None])
  moreover from assms(4) have "d2 = \<lparr>remaining = fresh_order R P2\<rparr>" "deck b = Some d2"
    by (auto simp: get_deck_None [OF n2])
  ultimately show ?thesis using assms(2) by simp
next
  case (Some d)
  then have s2: "deck st2 = Some d" using assms(1) by simp
  from assms(3) have "d1 = d" "a = st1"
    by (simp_all add: get_deck_Some [OF Some])
  moreover from assms(4) have "d2 = d" "b = st2"
    by (simp_all add: get_deck_Some [OF s2])
  ultimately show ?thesis using assms(1) by simp
qed

lemma deal_rel:
  assumes "deck st1 = deck st2" and "fresh_order R P1 = fresh_order R P2"
  shows "fst (deal R P1 req st1) = fst (deal R P2 req st2)
    \<and> deck (snd (deal R P1 req st1)) = deck (snd (deal R P2 req st2))"
proof -
  obtain d1 a where g1: "get_deck R P1 st1 = (d1, a)" by (cases "get_deck R P1 st1")
  obtain d2 b where g2: "get_deck R P2 st2 = (d2, b)" by (cases "get_deck R P2 st2")
  from get_deck_rel [OF assms g1 g2] have same: "d1 = d2" "deck a = deck b" by simp_all
  show ?thesis
    using assms(1) same
    by (simp add: deal_def g1 g2 split: option.splits sum.splits prod.splits)
qed

lemma multi_hand_rel:
  assumes "deck st1 = deck st2" and "fresh_order R P1 = fresh_order R P2"
  shows "fst (multi_hand R P1 req st1) = fst (multi_hand R P2 req st2)
    \<and> deck (snd (multi_hand R P1 req st1)) = deck (snd (multi_hand R P2 req st2))"
proof -
  obtain d1 a where g1: "get_deck R P1 st1 = (d1, a)" by (cases "get_deck R P1 st1")
  obtain d2 b where g2: "get_deck R P2 st2 = (d2, b)" by (cases "get_deck R P2 st2")
  from get_deck_rel [OF assms g1 g2] have same: "d1 = d2" "deck a = deck b" by simp_all
  show ?thesis
    using assms(1) same
    by (simp add: multi_hand_def Let_def g1 g2 split: sum.splits prod.splits)
qed

lemma dispatch_rel:
  assumes "deck st1 = deck st2" and "fresh_order R P1 = fresh_order R P2"
  shows "fst (full_dispatch_request R P1 req st1) = fst (full_dispatch_request R P2 req st2)
    \<and> deck (snd (full_dispatch_request R P1 req st1))
        = deck (snd (full_dispatch_request R P2 req st2))"
proof (cases "check_json req = Inr None")
  case False
  then show ?thesis using assms(1) by (simp add: dispatch_stopped)
next
  case True
  then show ?thesis
    using assms(1) deal_rel [OF assms, of req] multi_hand_rel [OF assms, of req]
    by (simp add: full_dispatch_request_def dispatch_request_def)
qed

lemma serve_rel:
  assumes "fresh_order R P1 = fresh_order R P2"
  shows "deck st1 = deck st2 \<Longrightarrow>
    fst (serve R P1 reqs st1) = fst (serve R P2 reqs st2)
    \<and> deck (snd (serve R P1 reqs st1)) = deck (snd (serve R P2 reqs st2))"
proof (induction reqs arbitrary: st1 st2)
  case Nil
  then show ?case by simp
next
  case (Cons req reqs)
  obtain r1 a where s1: "full_dispatch_request R P1 req st1 = (r1, a)"
    by (cases "full_dispatch_request R P1 req st1")
  obtain r2 b where s2: "full_dispatch_request R P2 req st2 = (r2, b)"
    by (cases "full_dispatch_request R P2 req st2")
  from dispatch_rel [OF Cons.prems assms, of req] s1 s2
  have same: "r1 = r2" "deck a = deck b" by simp_all
  from Cons.IH [OF same(2)] s1 s2 same(1) show ?case
    by (simp add: case_prod_beta)
qed

subsection \<open>Two runs with the same seed\<close>

text \<open>
  Claim C6. Two runs of the process whose environments both give \<^verbatim>\<open>DEAL_APP_SEED\<close> the
  value \<open>s\<close> may differ in everything else they get from outside (the entropy of the
  operating system, the generator state left by the import). They build the same deck
  order, and on the same sequence of requests they give the same sequence of answers and
  end with the same deck.
\<close>

theorem seeded_runs_agree:
  "environ P1 ''DEAL_APP_SEED'' = Some s \<and> environ P2 ''DEAL_APP_SEED'' = Some s \<longrightarrow>
     fresh_order R P1 = fresh_order R P2
     \<and> fst (get_deck R P1 (initial_state g1)) = fst (get_deck R P2 (initial_state g2))
     \<and> fst (serve R P1 reqs (initial_state g1)) = fst (serve R P2 reqs (initial_state g2))
     \<and> deck (snd (serve R P1 reqs (initial_state g1)))
         = deck (snd (serve R P2 reqs (initial_state g2)))"
proof
  assume "environ P1 ''DEAL_APP_SEED'' = Some s \<and> environ P2 ''DEAL_APP_SEED'' = Some s"
  then have order: "fresh_order R P1 = fresh_order R P2"
    by (simp add: fresh_order_seeded)
  have start: "deck (initial_state g1) = deck (initial_state g2)"
    by (simp add: initial_state_def)
  have built: "fst (get_deck R P1 (initial_state g1)) = fst (get_deck R P2 (initial_state g2))"
    using order by (simp add: get_deck_None initial_state_def)
  note runs = serve_rel [OF order start, of reqs]
  show "fresh_order R P1 = fresh_order R P2
     \<and> fst (get_deck R P1 (initial_state g1)) = fst (get_deck R P2 (initial_state g2))
     \<and> fst (serve R P1 reqs (initial_state g1)) = fst (serve R P2 reqs (initial_state g2))
     \<and> deck (snd (serve R P1 reqs (initial_state g1)))
         = deck (snd (serve R P2 reqs (initial_state g2)))"
    by (rule conjI [OF order conjI [OF built runs]])
qed


theorem get_deck_once_witness:
  "get_deck rot_random (seeded_platform ''7'' 1) (snd (get_deck rot_random (seeded_platform ''42'' 0) (initial_state 0)))
     = get_deck rot_random (seeded_platform ''42'' 0) (initial_state 0)
   \<and> fst (get_deck rot_random (seeded_platform ''42'' 0) (initial_state 0)) = \<lparr>remaining = fresh_order rot_random (seeded_platform ''42'' 0)\<rparr>
   \<and> (\<exists>d'. deck (snd (full_dispatch_request rot_random (seeded_platform ''7'' 1)
          \<lparr>path = ''/dealer/hand'', accept = Some ''application/json'', args = [(''cards'', ''5'')]\<rparr>
          (snd (get_deck rot_random (seeded_platform ''42'' 0) (initial_state 0))))) = Some d'
        \<and> suffix (remaining d') (remaining \<lparr>remaining = fresh_order rot_random (seeded_platform ''42'' 0)\<rparr>))"
proof -
  let ?R = rot_random
  let ?P = "seeded_platform ''42'' 0"
  let ?P' = "seeded_platform ''7'' 1"
  let ?r = "\<lparr>path = ''/dealer/hand'', accept = Some ''application/json'', args = [(''cards'', ''5'')]\<rparr>"
  let ?st = "snd (get_deck ?R ?P (initial_state 0))"
  let ?d = "\<lparr>remaining = fresh_order ?R ?P\<rparr>"
  note T0 = get_deck_once [where st = "initial_state 0" and R = ?R and P = ?P and P' = ?P']
  note T1 = get_deck_once [where st = ?st and d = ?d and R = ?R and P = ?P and P' = ?P'
    and req = ?r]
  have none: "deck (initial_state (0::nat)) = None"
    by (simp add: initial_state_def)
  have again: "get_deck ?R ?P' ?st = get_deck ?R ?P (initial_state 0)"
    by (rule T0 [THEN conjunct2, THEN conjunct2, THEN conjunct1])
  have built: "fst (get_deck ?R ?P (initial_state 0)) = ?d"
    using T0 [THEN conjunct2, THEN conjunct2, THEN conjunct2, THEN conjunct1, THEN mp, OF none]
    by simp
  have stored: "deck ?st = Some ?d"
    using T0 [THEN conjunct2, THEN conjunct1] built by simp
  note shrinks = T1 [THEN conjunct2, THEN conjunct2, THEN conjunct2, THEN conjunct2,
    THEN conjunct2, THEN mp, OF stored]
  show ?thesis
    by (rule conjI [OF again conjI [OF built shrinks]])
qed

theorem seeded_runs_agree_witness:
  "fst (serve rot_random (seeded_platform ''42'' 0)
      [\<lparr>path = ''/dealer/hand'', accept = Some ''application/json'', args = [(''cards'', ''5'')]\<rparr>,
       \<lparr>path = ''/dealer/hands'', accept = Some ''application/json'', args = []\<rparr>] (initial_state 3))
   = fst (serve rot_random (seeded_platform ''42'' 99)
      [\<lparr>path = ''/dealer/hand'', accept = Some ''application/json'', args = [(''cards'', ''5'')]\<rparr>,
       \<lparr>path = ''/dealer/hands'', accept = Some ''application/json'', args = []\<rparr>] (initial_state 8))"
proof -
  have seeds: "environ (seeded_platform ''42'' 0) ''DEAL_APP_SEED'' = Some ''42''
      \<and> environ (seeded_platform ''42'' 99) ''DEAL_APP_SEED'' = Some ''42''"
    by (simp add: seeded_platform_def)
  note T = seeded_runs_agree [where ?P1.0 = "seeded_platform ''42'' 0"
    and ?P2.0 = "seeded_platform ''42'' 99" and s = "''42''" and R = rot_random
    and ?g1.0 = 3 and ?g2.0 = 8, THEN mp, OF seeds]
  show ?thesis
    by (rule T [THEN conjunct2, THEN conjunct2, THEN conjunct1])
qed

text \<open>Without a seed the order depends on the entropy, so the hypothesis of C6 is needed.\<close>

lemma unseeded_orders_may_differ:
  "fresh_order rot_random \<lparr>environ = Map.empty, urandom = 0\<rparr>
     \<noteq> fresh_order rot_random \<lparr>environ = Map.empty, urandom = 1\<rparr>"
proof -
  have "hd (fresh_order rot_random \<lparr>environ = Map.empty, urandom = 0\<rparr>)
      \<noteq> hd (fresh_order rot_random \<lparr>environ = Map.empty, urandom = 1\<rparr>)"
    by (simp add: fresh_order_def random_seed_def rot_random_def all_cards_def SUITS_def
      upto.simps)
  then show ?thesis by auto
qed

end
